theory Spec2Isabelle
  imports Complex_Main "HOL-Library.Multiset"
begin

section \<open>Data model (src/types.ts)\<close>

text \<open>
  The game engine lives in the React component \<open>App\<close> of \<open>src/unnamed/part_000\<close>.
  Its state is a handful of \<open>useState\<close> cells; the model gathers the cells the engine
  reads and writes in one record and turns every state writer of the component (an event
  handler, an effect, a timer callback) into a function from state to state.

  JavaScript numbers are modelled as unbounded integers: every number of the engine is an
  integer far below \<open>2^53\<close>. The optional field \<open>isRemoving\<close> of a block is never read or
  written by the component and is left out.
\<close>

datatype GameMode = Classic | Time

record Block =
  id_b :: string
  value_b :: int
  row :: int
  col :: int

type_synonym Grid = "Block list list"

definition GRID_ROWS :: int where "GRID_ROWS = 10"
definition GRID_COLS :: int where "GRID_COLS = 7"
definition INITIAL_ROWS :: int where "INITIAL_ROWS = 4"
definition MAX_VALUE :: int where "MAX_VALUE = 9"
definition TIME_LIMIT :: int where "TIME_LIMIT = 10"

record GameState =
  mode :: "GameMode option"
  grid :: Grid
  target :: int
  selectedIds :: "string list"
  score :: int
  gameOver :: bool
  timeLeft :: int
  isPaused :: bool
  combo :: int

text \<open>The values of the \<open>useState\<close> cells when the component mounts (lines 211-219).\<close>

definition initialState :: GameState where
  "initialState =
     \<lparr>mode = None, grid = [], target = 0, selectedIds = [], score = 0, gameOver = False,
      timeLeft = TIME_LIMIT, isPaused = False, combo = 1\<rparr>"

subsection \<open>Randomness\<close>

text \<open>
  The source draws from \<open>Math.random()\<close>. The model takes the draws of one event as an
  argument: \<open>blockDraw r c\<close> is the pair (result of \<open>generateId()\<close>, result of
  \<open>Math.random()\<close>) used by \<open>createBlock(r, c)\<close>; \<open>countDraw\<close> is the \<open>Math.random()\<close> that
  picks how many blocks make the target; \<open>shuffle\<close> is the outcome of
  \<open>[...flat].sort(() => 0.5 - Math.random())\<close>, some rearrangement of its argument.
\<close>

record Rng =
  blockDraw :: "int \<Rightarrow> int \<Rightarrow> string \<times> real"
  countDraw :: real
  shuffle :: "Block list \<Rightarrow> Block list"

text \<open>\<open>Math.random()\<close> lies in \<open>[0, 1)\<close> and sorting rearranges.\<close>

definition rng_ok :: "Rng \<Rightarrow> bool" where
  "rng_ok rng \<longleftrightarrow>
     (\<forall>r c. 0 \<le> snd (blockDraw rng r c) \<and> snd (blockDraw rng r c) < 1) \<and>
     0 \<le> countDraw rng \<and> countDraw rng < 1 \<and>
     (\<forall>xs. mset (shuffle rng xs) = mset xs)"

section \<open>The engine (src/unnamed/part_000)\<close>

subsection \<open>Block factory (lines 86-91)\<close>

definition createBlock :: "string \<times> real \<Rightarrow> int \<Rightarrow> int \<Rightarrow> Block" where
  "createBlock d r c =
     \<lparr>id_b = fst d, value_b = \<lfloor>snd d * of_int MAX_VALUE\<rfloor> + 1, row = r, col = c\<rparr>"

subsection \<open>Target generator (lines 282-291)\<close>

definition generateTarget :: "Rng \<Rightarrow> Grid \<Rightarrow> int" where
  "generateTarget rng currentGrid =
     (let flat = concat currentGrid in
      if length flat = 0 then 10
      else
        let count = \<lfloor>countDraw rng * 3\<rfloor> + 2;
            shuffled = shuffle rng flat
        in foldl (\<lambda>acc b. acc + value_b b) 0 (take (nat count) shuffled))"

subsection \<open>Row insertion (lines 293-315)\<close>

text \<open>\<open>prev.some(row => row.length > 0 && row[0].row === 0)\<close>: only the first block of
  each inner list is looked at.\<close>

definition isFull :: "Grid \<Rightarrow> bool" where
  "isFull prev = list_ex (\<lambda>rw. case rw of [] \<Rightarrow> False | b # _ \<Rightarrow> row b = 0) prev"

definition shifted :: "Grid \<Rightarrow> Grid" where
  "shifted prev = map (\<lambda>rw. map (\<lambda>block. block\<lparr>row := row block - 1\<rparr>) rw) prev"

definition newRow :: "Rng \<Rightarrow> Block list" where
  "newRow rng =
     map (\<lambda>c. createBlock (blockDraw rng (GRID_ROWS - 1) c) (GRID_ROWS - 1) c)
       [0..GRID_COLS - 1]"

definition addNewRow :: "Rng \<Rightarrow> GameState \<Rightarrow> GameState" where
  "addNewRow rng s =
     (let prev = grid s in
      if isFull prev then s\<lparr>gameOver := True\<rparr>
      else s\<lparr>grid := shifted prev @ [newRow rng]\<rparr>)"

subsection \<open>Starting a round (lines 317-337)\<close>

definition initialGrid :: "Rng \<Rightarrow> Grid" where
  "initialGrid rng =
     map (\<lambda>r. map (\<lambda>c. createBlock (blockDraw rng r c) r c) [0..GRID_COLS - 1])
       [GRID_ROWS - INITIAL_ROWS..GRID_ROWS - 1]"

definition startGame :: "GameMode \<Rightarrow> Rng \<Rightarrow> GameState \<Rightarrow> GameState" where
  "startGame selectedMode rng s =
     s\<lparr>mode := Some selectedMode, score := 0, gameOver := False, isPaused := False,
       combo := 1, timeLeft := TIME_LIMIT, grid := initialGrid rng,
       target := generateTarget rng (initialGrid rng), selectedIds := []\<rparr>"

subsection \<open>Selection (lines 339-348)\<close>

definition handleBlockClick :: "Block \<Rightarrow> GameState \<Rightarrow> GameState" where
  "handleBlockClick block s =
     (if gameOver s \<or> isPaused s then s
      else s\<lparr>selectedIds :=
               (let prev = selectedIds s in
                if id_b block \<in> set prev then filter (\<lambda>i. i \<noteq> id_b block) prev
                else prev @ [id_b block])\<rparr>)"

subsection \<open>Clearing and gravity (lines 419-438)\<close>

text \<open>
  \<open>newGrid[newRow].push(updatedBlock)\<close> throws a \<open>TypeError\<close> when \<open>newRow\<close> is not an
  index of \<open>newGrid\<close> (\<open>newGrid[newRow]\<close> is then \<open>undefined\<close>), which happens when a column
  holds more than \<open>GRID_ROWS\<close> surviving blocks.
\<close>

datatype error = TypeError

text \<open>\<open>colBlocks.forEach((block, index) => ...)\<close>, from position \<open>index\<close> on.\<close>

fun placeColumn :: "Grid \<Rightarrow> Block list \<Rightarrow> nat \<Rightarrow> error + Grid" where
  "placeColumn newGrid [] index = Inr newGrid"
| "placeColumn newGrid (block # rest) index =
     (let newRow = GRID_ROWS - 1 - int index in
      if 0 \<le> newRow \<and> nat newRow < length newGrid
      then placeColumn
             (newGrid[nat newRow := newGrid ! nat newRow @ [block\<lparr>row := newRow\<rparr>]])
             rest (Suc index)
      else Inl TypeError)"

text \<open>JavaScript's \<open>sort\<close> is stable, as \<open>sort_key\<close> is; the comparator \<open>b.row - a.row\<close>
  orders by descending row.\<close>

definition colBlocks :: "Block list \<Rightarrow> int \<Rightarrow> Block list" where
  "colBlocks remainingBlocks c =
     sort_key (\<lambda>b. - row b) (filter (\<lambda>b. col b = c) remainingBlocks)"

text \<open>The loop over the columns still to be settled.\<close>

fun gravity :: "Block list \<Rightarrow> Grid \<Rightarrow> int list \<Rightarrow> error + Grid" where
  "gravity remainingBlocks newGrid [] = Inr newGrid"
| "gravity remainingBlocks newGrid (c # cs) =
     (case placeColumn newGrid (colBlocks remainingBlocks c) 0 of
        Inl e \<Rightarrow> Inl e
      | Inr g \<Rightarrow> gravity remainingBlocks g cs)"

text \<open>The updater passed to \<open>setGrid\<close> on success; the spec calls it \<open>clearAndCompact\<close>.\<close>

definition clearAndCompact :: "string list \<Rightarrow> Grid \<Rightarrow> error + Grid" where
  "clearAndCompact ids prev =
     (let remainingBlocks = filter (\<lambda>b. id_b b \<notin> set ids) (concat prev);
          newGrid = replicate (nat GRID_ROWS) []
      in case gravity remainingBlocks newGrid [0..GRID_COLS - 1] of
           Inl e \<Rightarrow> Inl e
         | Inr g \<Rightarrow> Inr (filter (\<lambda>rw. length rw > 0) g))"

subsection \<open>Evaluation: the check-sum effect (lines 351-461)\<close>

definition selectedBlocks :: "GameState \<Rightarrow> Block list" where
  "selectedBlocks s = filter (\<lambda>b. id_b b \<in> set (selectedIds s)) (concat (grid s))"

definition currentSum :: "GameState \<Rightarrow> int" where
  "currentSum s = foldl (\<lambda>acc b. acc + value_b b) 0 (selectedBlocks s)"

text \<open>
  The state updates queued by one run of the effect, applied in the order they are queued:
  the score, the clearing updater, the selection reset, then either \<open>addNewRow\<close> (classic)
  or the timer and combo updates. Particles and score popups are presentation. The new
  target is set by a timeout 100 ms later and is the separate transition \<open>newTarget\<close>.
\<close>

definition checkSum :: "Rng \<Rightarrow> GameState \<Rightarrow> error + GameState" where
  "checkSum rng s =
     (if currentSum s = target s \<and> target s \<noteq> 0 then
        (let points = target s * int (length (selectedBlocks s)) * combo s in
         case clearAndCompact (selectedIds s) (grid s) of
           Inl e \<Rightarrow> Inl e
         | Inr g \<Rightarrow>
             (let s1 = s\<lparr>score := score s + points, grid := g, selectedIds := []\<rparr> in
              Inr (if mode s = Some Classic then addNewRow rng s1
                   else s1\<lparr>timeLeft := TIME_LIMIT, combo := min (combo s + 1) 5\<rparr>)))
      else if currentSum s > target s then Inr (s\<lparr>selectedIds := [], combo := 1\<rparr>)
      else Inr s)"

definition newTarget :: "Rng \<Rightarrow> GameState \<Rightarrow> GameState" where
  "newTarget rng s = s\<lparr>target := generateTarget rng (grid s)\<rparr>"

subsection \<open>Timer (lines 464-480)\<close>

text \<open>The interval exists only while \<open>mode === 'time' && !gameOver && !isPaused\<close>.\<close>

definition tick :: "Rng \<Rightarrow> GameState \<Rightarrow> GameState" where
  "tick rng s =
     (if mode s = Some Time \<and> \<not> gameOver s \<and> \<not> isPaused s then
        (let prev = timeLeft s in
         if prev \<le> 1 then (addNewRow rng s)\<lparr>combo := 1, timeLeft := TIME_LIMIT\<rparr>
         else s\<lparr>timeLeft := prev - 1\<rparr>)
      else s)"

subsection \<open>Transitions\<close>

text \<open>
  Every writer of the engine's state: the two \<open>startGame\<close> buttons, a click on a block,
  a run of the check-sum effect, a timer tick, the delayed target regeneration, the pause
  button (\<open>setIsPaused(!isPaused)\<close>), the resume button (\<open>setIsPaused(false)\<close>) and the
  menu buttons (\<open>setMode(null)\<close>).
  Each runs to completion on the state it finds before the next one starts: JavaScript is
  single-threaded, the handlers use functional updaters, and the effect runs on the values
  of the render that scheduled it. The effect and the delayed regeneration may fire at any
  moment here, which includes the moments at which React fires them.
\<close>

datatype Event =
    StartGame GameMode
  | Click Block
  | CheckSum
  | Tick
  | NewTarget
  | TogglePause
  | Resume
  | Menu

fun step :: "Event \<Rightarrow> Rng \<Rightarrow> GameState \<Rightarrow> error + GameState" where
  "step (StartGame m) rng s = Inr (startGame m rng s)"
| "step (Click block) rng s = Inr (handleBlockClick block s)"
| "step CheckSum rng s = checkSum rng s"
| "step Tick rng s = Inr (tick rng s)"
| "step NewTarget rng s = Inr (newTarget rng s)"
| "step TogglePause rng s = Inr (s\<lparr>isPaused := \<not> isPaused s\<rparr>)"
| "step Resume rng s = Inr (s\<lparr>isPaused := False\<rparr>)"
| "step Menu rng s = Inr (s\<lparr>mode := None\<rparr>)"

text \<open>States the component can be in: from the mounted state, any sequence of events, each
  with draws that \<open>Math.random()\<close> can produce.\<close>

inductive reachable :: "GameState \<Rightarrow> bool" where
  reachable_init: "reachable initialState"
| reachable_step: "reachable s \<Longrightarrow> rng_ok rng \<Longrightarrow> step ev rng s = Inr s' \<Longrightarrow> reachable s'"

text \<open>
  A sequence of events, each with its own draws; it stops at the first exception.
\<close>

fun run :: "(Event \<times> Rng) list \<Rightarrow> GameState \<Rightarrow> error + GameState" where
  "run [] s = Inr s"
| "run ((ev, rng) # rest) s =
     (case step ev rng s of Inl e \<Rightarrow> Inl e | Inr s' \<Rightarrow> run rest s')"

text \<open>
  The events of one round: every event but \<open>startGame\<close>, which begins the next round.
\<close>

fun in_round :: "Event \<Rightarrow> bool" where
  "in_round (StartGame m) = False"
| "in_round ev = True"

text \<open>
  The board renders one button per block of \<open>grid.flat()\<close>, and a click passes that block
  to \<open>handleBlockClick\<close> (lines 759-771). The clicks the interface offers in a state are
  therefore the clicks on blocks of its grid; \<open>ui_reachable\<close> is \<open>reachable\<close> restricted to
  them.
\<close>

fun offered :: "Event \<Rightarrow> GameState \<Rightarrow> bool" where
  "offered (Click block) s = (block \<in> set (concat (grid s)))"
| "offered ev s = True"

inductive ui_reachable :: "GameState \<Rightarrow> bool" where
  ui_init: "ui_reachable initialState"
| ui_step: "ui_reachable s \<Longrightarrow> rng_ok rng \<Longrightarrow> offered ev s \<Longrightarrow> step ev rng s = Inr s' \<Longrightarrow>
            ui_reachable s'"

section \<open>Specification vocabulary\<close>

subsection \<open>Well-formed grids and the invariant of the engine\<close>

text \<open>
  The grid is a list of rows: every inner list holds the blocks of one row index
  (\<open>rows_uniform\<close>). A grid is well formed when, besides, every block lies on the lattice of
  \<open>GRID_ROWS\<close> by \<open>GRID_COLS\<close> cells and no two blocks share a cell. \<open>invariant\<close> gathers
  what holds in every state the component reaches (lemma \<open>reachable_invariant\<close> below).
\<close>

definition position :: "Block \<Rightarrow> int \<times> int" where
  "position b = (row b, col b)"

definition on_lattice :: "Block \<Rightarrow> bool" where
  "on_lattice b \<longleftrightarrow> 0 \<le> row b \<and> row b < GRID_ROWS \<and> 0 \<le> col b \<and> col b < GRID_COLS"

definition rows_uniform :: "Grid \<Rightarrow> bool" where
  "rows_uniform g \<longleftrightarrow> (\<forall>rw \<in> set g. \<forall>b \<in> set rw. row b = row (hd rw))"

definition wf_grid :: "Grid \<Rightarrow> bool" where
  "wf_grid g \<longleftrightarrow>
     rows_uniform g \<and> (\<forall>b \<in> set (concat g). on_lattice b) \<and>
     distinct (map position (concat g))"

definition values_ok :: "Grid \<Rightarrow> bool" where
  "values_ok g \<longleftrightarrow> (\<forall>b \<in> set (concat g). 1 \<le> value_b b \<and> value_b b \<le> MAX_VALUE)"

definition invariant :: "GameState \<Rightarrow> bool" where
  "invariant s \<longleftrightarrow>
     wf_grid (grid s) \<and> values_ok (grid s) \<and> 1 \<le> combo s \<and> combo s \<le> 5 \<and>
     0 \<le> score s \<and> 1 \<le> timeLeft s \<and> timeLeft s \<le> TIME_LIMIT \<and>
     (mode s = Some Classic \<longrightarrow> combo s = 1)"

subsection \<open>Clearing\<close>

text \<open>
  \<open>unplaced\<close> is a block without its row: what clearing and gravity leave untouched.
  \<open>settled blocks\<close> is a column after gravity, read from the bottom up: the blocks in the
  order given, at rows \<open>GRID_ROWS - 1\<close>, \<open>GRID_ROWS - 2\<close>, and so on. \<open>slot_from\<close> is what the
  loop over a column, started at position \<open>index\<close>, pushes onto row \<open>r\<close> of the ten rows of
  \<open>newGrid\<close>; it serves the proofs only.
\<close>

definition unplaced :: "Block \<Rightarrow> string \<times> int \<times> int" where
  "unplaced b = (id_b b, value_b b, col b)"

definition settled :: "Block list \<Rightarrow> Block list" where
  "settled blocks =
     map (\<lambda>(index, block). block\<lparr>row := GRID_ROWS - 1 - int index\<rparr>) (enumerate 0 blocks)"

definition slot_from :: "nat \<Rightarrow> Block list \<Rightarrow> nat \<Rightarrow> Block list" where
  "slot_from index blocks r =
     (if index \<le> 9 - r \<and> 9 - r - index < length blocks
      then [(blocks ! (9 - r - index))\<lparr>row := int r\<rparr>] else [])"

subsection \<open>Targets and selections\<close>

text \<open>
  A set of distinct blocks of the grid is a subsequence of the flattened grid.
  \<open>subset_sums_to g lo hi t\<close>: some set of between \<open>lo\<close> and \<open>hi\<close> distinct blocks of \<open>g\<close> has
  values that sum to \<open>t\<close>. \<open>grid_ids\<close> are the ids of the blocks currently on the grid.
\<close>

definition subset_sums_to :: "Grid \<Rightarrow> nat \<Rightarrow> nat \<Rightarrow> int \<Rightarrow> bool" where
  "subset_sums_to g lo hi t \<longleftrightarrow>
     list_ex (\<lambda>sub. lo \<le> length sub \<and> length sub \<le> hi \<and> sum_list (map value_b sub) = t)
       (subseqs (concat g))"

definition grid_ids :: "GameState \<Rightarrow> string set" where
  "grid_ids s = id_b ` set (concat (grid s))"

subsection \<open>Example inputs\<close>

text \<open>
  Concrete draws, blocks and states on which the theorems below are instantiated. With
  \<open>demo_rng\<close> the block created at row \<open>r\<close> and column \<open>c\<close> has the id made of \<open>r\<close> letters r and
  \<open>c\<close> letters c and the value \<open>\<lfloor>9 / 2\<rfloor> + 1 = 5\<close>; the target is made of two blocks and the
  shuffle leaves the order as it is. \<open>ready_state m\<close> is the state after \<open>startGame\<close> and
  clicks on the first two blocks of the top row, whose values sum to the target.
\<close>

definition demo_rng :: Rng where
  "demo_rng =
     \<lparr>blockDraw = (\<lambda>r c. (replicate (nat r) CHR ''r'' @ replicate (nat c) CHR ''c'', 1 / 2)),
      countDraw = 0, shuffle = (\<lambda>xs. xs)\<rparr>"

definition demo_block :: "string \<Rightarrow> int \<Rightarrow> int \<Rightarrow> int \<Rightarrow> Block" where
  "demo_block i v r c = \<lparr>id_b = i, value_b = v, row = r, col = c\<rparr>"

definition demo_state :: "Grid \<Rightarrow> int \<Rightarrow> string list \<Rightarrow> GameState" where
  "demo_state g t sel =
     \<lparr>mode = Some Time, grid = g, target = t, selectedIds = sel, score = 40,
      gameOver = False, timeLeft = 7, isPaused = False, combo = 3\<rparr>"

definition gravity_column :: Grid where
  "gravity_column =
     [[demo_block ''p'' 3 5 2], [demo_block ''q'' 4 7 2], [demo_block ''r'' 2 9 2]]"

definition overflow_grid :: Grid where
  "overflow_grid = [[demo_block ''t'' 4 0 3], [demo_block ''u'' 2 1 3]]"

definition success_state :: GameState where
  "success_state =
     demo_state
       [[demo_block ''a'' 3 9 0, demo_block ''b'' 4 9 1, demo_block ''c'' 2 9 2,
         demo_block ''d'' 5 9 3]]
       9 [''a'', ''b'', ''c'']"

definition single_grid :: Grid where
  "single_grid = [[demo_block ''a'' 5 9 0]]"

definition bust_state :: GameState where
  "bust_state = demo_state single_grid 3 [''a'']"

definition stray_block :: Block where
  "stray_block = demo_block ''zz'' 1 0 0"

definition first_block :: Block where
  "first_block = createBlock (blockDraw demo_rng 6 0) 6 0"

definition second_block :: Block where
  "second_block = createBlock (blockDraw demo_rng 6 1) 6 1"

definition ready_state :: "GameMode \<Rightarrow> GameState" where
  "ready_state m =
     handleBlockClick second_block
       (handleBlockClick first_block (startGame m demo_rng initialState))"

definition round_events :: "(Event \<times> Rng) list" where
  "round_events =
     [(CheckSum, demo_rng), (Tick, demo_rng), (NewTarget, demo_rng),
      (Click first_block, demo_rng)]"

section \<open>Auxiliary facts\<close>

subsection \<open>The gravity loops\<close>

text \<open>
  When the column fits, the loop over a column does not throw and appends to every row of
  \<open>newGrid\<close> the block of the column that belongs there; the loop over the columns does so
  column after column.
\<close>

lemma placeColumn_nth:
  "length newGrid = 10 \<Longrightarrow> index + length blocks \<le> 10 \<Longrightarrow>
   \<exists>g. placeColumn newGrid blocks index = Inr g \<and> length g = 10 \<and>
       (\<forall>r < 10. g ! r = newGrid ! r @ slot_from index blocks r)"
proof (induction blocks arbitrary: newGrid index)
  case Nil
  then show ?case by (simp add: slot_from_def)
next
  case (Cons b rest)
  let ?n = "9 - index"
  let ?g1 = "newGrid[?n := newGrid ! ?n @ [b\<lparr>row := int ?n\<rparr>]]"
  from Cons.prems have idx: "index \<le> 9" by simp
  have len1: "length ?g1 = 10" using Cons.prems by simp
  have rest_ok: "Suc index + length rest \<le> 10" using Cons.prems by simp
  from Cons.IH [OF len1 rest_ok] obtain g where
    g: "placeColumn ?g1 rest (Suc index) = Inr g" "length g = 10"
       "\<forall>r < 10. g ! r = ?g1 ! r @ slot_from (Suc index) rest r"
    by blast
  have nr: "GRID_ROWS - 1 - int index = int ?n" using idx by (simp add: GRID_ROWS_def)
  have unfold: "placeColumn newGrid (b # rest) index = placeColumn ?g1 rest (Suc index)"
  proof -
    have "?n < 10" by arith
    then show ?thesis using Cons.prems(1) by (simp add: nr Let_def del: of_nat_diff)
  qed
  have "g ! r = newGrid ! r @ slot_from index (b # rest) r" if r: "r < 10" for r
  proof (cases "r = ?n")
    case True
    then show ?thesis using g(3) r Cons.prems(1) idx
      by (simp add: slot_from_def)
  next
    case False
    then have "?g1 ! r = newGrid ! r" by simp
    moreover have "slot_from (Suc index) rest r = slot_from index (b # rest) r"
    proof (cases "index \<le> 9 - r")
      case True
      with False r idx have "Suc index \<le> 9 - r" by arith
      define k where "k = 9 - r - Suc index"
      have k: "9 - r - index = Suc k" using \<open>Suc index \<le> 9 - r\<close> by (simp add: k_def)
      have le: "index \<le> 9 - r" by (rule True)
      show ?thesis unfolding slot_from_def k k_def [symmetric]
        using le \<open>Suc index \<le> 9 - r\<close> by simp
    next
      case False
      then show ?thesis by (simp add: slot_from_def)
    qed
    ultimately show ?thesis using g(3) r by simp
  qed
  with g unfold show ?case by simp
qed

lemma gravity_nth:
  "length newGrid = 10 \<Longrightarrow> \<forall>c \<in> set cs. length (colBlocks rem c) \<le> 10 \<Longrightarrow>
   \<exists>g. gravity rem newGrid cs = Inr g \<and> length g = 10 \<and>
       (\<forall>r < 10. g ! r = newGrid ! r @ concat (map (\<lambda>c. slot_from 0 (colBlocks rem c) r) cs))"
proof (induction cs arbitrary: newGrid)
  case Nil
  then show ?case by simp
next
  case (Cons c cs)
  from Cons.prems have "0 + length (colBlocks rem c) \<le> 10" by simp
  from placeColumn_nth [OF Cons.prems(1) this] obtain g1 where
    g1: "placeColumn newGrid (colBlocks rem c) 0 = Inr g1" "length g1 = 10"
        "\<forall>r < 10. g1 ! r = newGrid ! r @ slot_from 0 (colBlocks rem c) r"
    by blast
  from Cons.prems have "\<forall>c \<in> set cs. length (colBlocks rem c) \<le> 10" by simp
  from Cons.IH [OF g1(2) this] obtain g where
    g: "gravity rem g1 cs = Inr g" "length g = 10"
       "\<forall>r < 10. g ! r = g1 ! r @ concat (map (\<lambda>c. slot_from 0 (colBlocks rem c) r) cs)"
    by blast
  show ?case using g1 g by simp
qed

lemma concat_filter_nonempty: "concat (filter (\<lambda>rw. length rw > 0) g) = concat g"
  by (induction g) auto

lemma clearAndCompact_nth:
  assumes "\<forall>c \<in> {0..6}. length (colBlocks (filter (\<lambda>b. id_b b \<notin> set ids) (concat prev)) c) \<le> 10"
  shows "\<exists>g. clearAndCompact ids prev = Inr (filter (\<lambda>rw. length rw > 0) g) \<and> length g = 10 \<and>
       (\<forall>r < 10. g ! r = concat (map (\<lambda>c. slot_from 0 (colBlocks (filter (\<lambda>b. id_b b \<notin> set ids) (concat prev)) c) r) [0..6]))"
proof -
  let ?rem = "filter (\<lambda>b. id_b b \<notin> set ids) (concat prev)"
  have len: "length (replicate (nat GRID_ROWS) ([]::Block list)) = 10" by (simp add: GRID_ROWS_def)
  have "\<forall>c \<in> set [0..6]. length (colBlocks ?rem c) \<le> 10" using assms by simp
  from gravity_nth [OF len this] obtain g where
    g: "gravity ?rem (replicate (nat GRID_ROWS) []) [0..6] = Inr g" "length g = 10"
       "\<forall>r < 10. g ! r = replicate (nat GRID_ROWS) [] ! r @ concat (map (\<lambda>c. slot_from 0 (colBlocks ?rem c) r) [0..6])"
    by blast
  have "\<forall>r < 10. g ! r = concat (map (\<lambda>c. slot_from 0 (colBlocks ?rem c) r) [0..6])"
    using g(3) by (simp add: GRID_ROWS_def)
  moreover have "clearAndCompact ids prev = Inr (filter (\<lambda>rw. length rw > 0) g)"
    using g(1) by (simp add: clearAndCompact_def GRID_COLS_def)
  ultimately show ?thesis using g(2) by blast
qed

lemma slots_concat:
  assumes "length cb \<le> 10"
  shows "concat (map (\<lambda>r. slot_from 0 cb r) [0..<10]) = rev (settled cb)"
proof -
  let ?k = "length cb"
  let ?f = "\<lambda>r. (cb ! (9 - r))\<lparr>row := int r\<rparr>"
  have split: "[0..<10] = [0..<10 - ?k] @ [10 - ?k..<10]"
    using assms by (metis le_add_diff_inverse2 upt_add_eq_append zero_le diff_le_self)
  have e1: "concat (map (\<lambda>r. slot_from 0 cb r) [0..<10 - ?k]) = []"
    by (auto simp: slot_from_def)
  have e2: "map (\<lambda>r. slot_from 0 cb r) [10 - ?k..<10] = map (\<lambda>r. [?f r]) [10 - ?k..<10]"
    using assms by (auto simp: slot_from_def)
  have e3: "concat (map (\<lambda>r. [?f r]) xs) = map ?f xs" for xs
    by (induction xs) auto
  have "map ?f [10 - ?k..<10] = rev (settled cb)"
  proof (rule nth_equalityI)
    show "length (map ?f [10 - ?k..<10]) = length (rev (settled cb))"
      using assms by (simp add: settled_def)
  next
    fix j assume "j < length (map ?f [10 - ?k..<10])"
    then have j: "j < ?k" using assms by simp
    have a: "map ?f [10 - ?k..<10] ! j = ?f (10 - ?k + j)" using j assms by simp
    have b: "rev (settled cb) ! j = settled cb ! (?k - Suc j)"
      using j by (simp add: rev_nth settled_def)
    have c: "settled cb ! (?k - Suc j) = (cb ! (?k - Suc j))\<lparr>row := GRID_ROWS - 1 - int (?k - Suc j)\<rparr>"
      using j by (simp add: settled_def nth_enumerate_eq)
    have d: "9 - (10 - ?k + j) = ?k - Suc j" using j assms by arith
    have e: "int (10 - ?k + j) = GRID_ROWS - 1 - int (?k - Suc j)"
      using j assms by (simp add: GRID_ROWS_def)
    show "map ?f [10 - ?k..<10] ! j = rev (settled cb) ! j"
      unfolding a b c d e ..
  qed
  then show ?thesis
    unfolding split map_append concat_append e1 e2 e3 by simp
qed

lemma set_colBlocks: "set (colBlocks rem c) = {b \<in> set rem. col b = c}"
  by (auto simp: colBlocks_def)

lemma mset_colBlocks: "mset (colBlocks rem c) = mset (filter (\<lambda>b. col b = c) rem)"
  by (simp add: colBlocks_def)

lemma colBlocks_sorted: "sorted_wrt (\<lambda>a b. row b \<le> row a) (colBlocks rem c)"
proof -
  have "sorted (map (\<lambda>b. - row b) (colBlocks rem c))"
    unfolding colBlocks_def by (rule sorted_sort_key)
  then show ?thesis by (simp add: sorted_map)
qed

lemma length_colBlocks: "length (colBlocks rem c) = length (filter (\<lambda>b. col b = c) rem)"
  by (simp add: colBlocks_def)

lemma slot_from_mem:
  "b \<in> set (slot_from 0 cb r) \<Longrightarrow> \<exists>b0 \<in> set cb. b = b0\<lparr>row := int r\<rparr>"
  by (auto simp: slot_from_def split: if_splits)

lemma column_fits:
  assumes "wf_grid g"
  shows "length (colBlocks (filter P (concat g)) c) \<le> 10"
proof -
  let ?xs = "filter (\<lambda>b. col b = c) (filter P (concat g))"
  have d: "distinct (map position ?xs)"
    using assms by (simp add: wf_grid_def distinct_map_filter)
  have eq: "map position ?xs = map (\<lambda>r. (r, c)) (map row ?xs)"
    by (simp add: position_def)
  have "distinct (map (\<lambda>r. (r, c)) (map row ?xs))"
    using d by (simp only: eq)
  then have dr: "distinct (map row ?xs)"
    using distinct_map [of "\<lambda>r. (r, c)" "map row ?xs"] by blast
  have sub: "set (map row ?xs) \<subseteq> {0..9}"
    using assms by (fastforce simp: wf_grid_def on_lattice_def GRID_ROWS_def)
  have "length ?xs = length (map row ?xs)" by simp
  also have "\<dots> = card (set (map row ?xs))"
    using dr by (rule distinct_card [symmetric])
  also have "\<dots> \<le> card {0..9::int}"
    using sub by (intro card_mono) auto
  also have "\<dots> = 10" by simp
  finally show ?thesis by (simp only: length_colBlocks)
qed

lemma concat_map_single:
  "distinct cs \<Longrightarrow> concat (map (\<lambda>c'. if c' = c then x else []) cs) = (if c \<in> set cs then x else [])"
  by (induction cs) auto

lemma filter_col_slots:
  assumes "distinct cs"
  shows "filter (\<lambda>b. col b = c) (concat (map (\<lambda>c'. slot_from 0 (colBlocks rem c') r) cs)) =
         (if c \<in> set cs then slot_from 0 (colBlocks rem c) r else [])"
proof -
  have "filter (\<lambda>b. col b = c) (slot_from 0 (colBlocks rem c') r) =
        (if c' = c then slot_from 0 (colBlocks rem c) r else [])" for c'
    by (auto simp: slot_from_def set_colBlocks filter_empty_conv dest!: nth_mem)
  then have "filter (\<lambda>b. col b = c) (concat (map (\<lambda>c'. slot_from 0 (colBlocks rem c') r) cs)) =
        concat (map (\<lambda>c'. if c' = c then slot_from 0 (colBlocks rem c) r else []) cs)"
    by (simp add: filter_concat comp_def)
  then show ?thesis using assms by (simp add: concat_map_single)
qed

lemma column_view:
  assumes g: "length g = 10"
      "\<forall>r < 10. g ! r = concat (map (\<lambda>c. slot_from 0 (colBlocks rem c) r) [0..6])"
    and c: "0 \<le> c" "c \<le> 6" and fits: "length (colBlocks rem c) \<le> 10"
  shows "filter (\<lambda>b. col b = c) (concat g) = rev (settled (colBlocks rem c))"
proof -
  have g_eq: "g = map (\<lambda>r. concat (map (\<lambda>c. slot_from 0 (colBlocks rem c) r) [0..6])) [0..<10]"
    using g by (intro nth_equalityI) auto
  have "filter (\<lambda>b. col b = c) (concat g) =
        concat (map (\<lambda>r. filter (\<lambda>b. col b = c) (concat (map (\<lambda>c. slot_from 0 (colBlocks rem c) r) [0..6]))) [0..<10])"
    by (subst g_eq) (simp add: filter_concat comp_def)
  also have "\<dots> = concat (map (\<lambda>r. slot_from 0 (colBlocks rem c) r) [0..<10])"
    using c by (simp add: filter_col_slots)
  also have "\<dots> = rev (settled (colBlocks rem c))"
    using fits by (rule slots_concat)
  finally show ?thesis .
qed

lemma partition_by_key:
  "distinct ks \<Longrightarrow>
   sum_list (map (\<lambda>k. mset (map u (filter (\<lambda>x. f x = k) xs))) ks) =
   mset (map u (filter (\<lambda>x. f x \<in> set ks) xs))"
proof (induction ks)
  case Nil
  then show ?case by simp
next
  case (Cons k ks)
  have "mset (map u (filter (\<lambda>x. f x = k) xs)) + mset (map u (filter (\<lambda>x. f x \<in> set ks) xs)) =
        mset (map u (filter (\<lambda>x. f x = k \<or> f x \<in> set ks) xs))"
    using Cons.prems by (induction xs) auto
  with Cons show ?case by simp
qed

lemma unplaced_settled: "map unplaced (settled cb) = map unplaced cb"
proof -
  have "map unplaced (settled cb) = map (unplaced \<circ> snd) (enumerate 0 cb)"
    by (simp add: settled_def unplaced_def case_prod_beta comp_def)
  also have "\<dots> = map unplaced (map snd (enumerate 0 cb))" by (simp only: map_map)
  also have "\<dots> = map unplaced cb" by (simp only: map_snd_enumerate)
  finally show ?thesis .
qed

lemma slot_col:
  "b \<in> set (slot_from 0 (colBlocks rem c) r) \<Longrightarrow> col b = c \<and> row b = int r"
  by (auto simp: slot_from_def set_colBlocks split: if_splits dest!: nth_mem)

lemma cleared_cols:
  assumes "length g = 10"
      "\<forall>r < 10. g ! r = concat (map (\<lambda>c. slot_from 0 (colBlocks rem c) r) [0..6])"
    and "b \<in> set (concat g)"
  shows "0 \<le> col b \<and> col b \<le> 6 \<and> 0 \<le> row b \<and> row b \<le> 9"
proof -
  from assms(3) obtain rw where rw: "rw \<in> set g" "b \<in> set rw" by auto
  then obtain r where r: "r < 10" "rw = g ! r" using assms(1) by (metis in_set_conv_nth)
  with assms(2) rw obtain c where "c \<in> set [0..6]" "b \<in> set (slot_from 0 (colBlocks rem c) r)"
    by auto
  with r show ?thesis by (auto dest: slot_col)
qed

lemma cleared_mset:
  assumes g: "length g = 10"
      "\<forall>r < 10. g ! r = concat (map (\<lambda>c. slot_from 0 (colBlocks rem c) r) [0..6])"
    and fits: "\<forall>c \<in> {0..6}. length (colBlocks rem c) \<le> 10"
  shows "mset (map unplaced (concat g)) =
         mset (map unplaced (filter (\<lambda>b. col b \<in> set [0..6]) rem))"
proof -
  have "filter (\<lambda>b. col b \<in> set [0..6]) (concat g) = concat g"
    using cleared_cols [OF g] by (simp add: filter_id_conv)
  then have "mset (map unplaced (concat g)) =
        mset (map unplaced (filter (\<lambda>b. col b \<in> set [0..6]) (concat g)))" by simp
  also have "\<dots> = sum_list (map (\<lambda>c. mset (map unplaced (filter (\<lambda>b. col b = c) (concat g)))) [0..6])"
    by (rule partition_by_key [symmetric]) simp
  also have "\<dots> = sum_list (map (\<lambda>c. mset (map unplaced (filter (\<lambda>b. col b = c) rem))) [0..6])"
  proof (rule arg_cong [where f = sum_list], rule map_cong [OF refl])
    fix c :: int assume "c \<in> set [0..6]"
    then have c: "0 \<le> c" "c \<le> 6" by auto
    then have fit: "length (colBlocks rem c) \<le> 10" using fits by simp
    have "mset (map unplaced (filter (\<lambda>b. col b = c) (concat g))) =
          mset (map unplaced (rev (settled (colBlocks rem c))))"
      by (simp only: column_view [OF g c fit])
    also have "\<dots> = mset (map unplaced (colBlocks rem c))"
      by (simp add: rev_map [symmetric] unplaced_settled)
    also have "\<dots> = mset (map unplaced (filter (\<lambda>b. col b = c) rem))"
      using mset_colBlocks [of rem c] by (metis mset_map)
    finally show "mset (map unplaced (filter (\<lambda>b. col b = c) (concat g))) =
          mset (map unplaced (filter (\<lambda>b. col b = c) rem))" .
  qed
  also have "\<dots> = mset (map unplaced (filter (\<lambda>b. col b \<in> set [0..6]) rem))"
    by (rule partition_by_key) simp
  finally show ?thesis .
qed

lemma distinct_concat_map:
  "distinct xs \<Longrightarrow> (\<forall>x \<in> set xs. distinct (f x)) \<Longrightarrow>
   (\<forall>x \<in> set xs. \<forall>y \<in> set xs. x \<noteq> y \<longrightarrow> set (f x) \<inter> set (f y) = {}) \<Longrightarrow>
   distinct (concat (map f xs))"
  by (induction xs) auto

lemma cleared_wf:
  assumes g: "length g = 10"
      "\<forall>r < 10. g ! r = concat (map (\<lambda>c. slot_from 0 (colBlocks rem c) r) [0..6])"
  shows "wf_grid (filter (\<lambda>rw. length rw > 0) g)"
proof -
  have g_eq: "g = map (\<lambda>r. concat (map (\<lambda>c. slot_from 0 (colBlocks rem c) r) [0..6])) [0..<10]"
    using g by (intro nth_equalityI) auto
  have row_r: "row b = int r" if "r < 10" "b \<in> set (g ! r)" for r b
    using that g(2) by (auto dest: slot_col)
  have uni: "rows_uniform (filter (\<lambda>rw. length rw > 0) g)"
    unfolding rows_uniform_def
  proof (intro ballI)
    fix rw b assume rw: "rw \<in> set (filter (\<lambda>rw. length rw > 0) g)" and b: "b \<in> set rw"
    then obtain r where r: "r < 10" "rw = g ! r" using g(1) by (auto simp: in_set_conv_nth)
    from rw have "hd rw \<in> set rw" by simp
    with r b show "row b = row (hd rw)" by (simp add: row_r)
  qed
  have lat: "\<forall>b \<in> set (concat (filter (\<lambda>rw. length rw > 0) g)). on_lattice b"
  proof
    fix b assume "b \<in> set (concat (filter (\<lambda>rw. length rw > 0) g))"
    then have "b \<in> set (concat g)" by (simp only: concat_filter_nonempty)
    from cleared_cols [OF g this] show "on_lattice b"
      by (simp add: on_lattice_def GRID_ROWS_def GRID_COLS_def)
  qed
  let ?P = "\<lambda>r c. map position (slot_from 0 (colBlocks rem c) r)"
  have Pset: "set (?P r c) \<subseteq> {(int r, c)}" for r c
    by (auto simp: position_def dest: slot_col)
  have Pdist: "distinct (?P r c)" for r c
    by (simp add: slot_from_def)
  have inner: "distinct (concat (map (?P r) [0..6]))" for r
  proof (rule distinct_concat_map)
    show "distinct [0..6::int]" by simp
    show "\<forall>c \<in> set [0..6]. distinct (?P r c)" using Pdist by simp
    show "\<forall>c \<in> set [0..6]. \<forall>c' \<in> set [0..6]. c \<noteq> c' \<longrightarrow> set (?P r c) \<inter> set (?P r c') = {}"
      using Pset by blast
  qed
  have inner_set: "set (concat (map (?P r) [0..6])) \<subseteq> {int r} \<times> UNIV" for r
    using Pset by fastforce
  have "distinct (concat (map (\<lambda>r. concat (map (?P r) [0..6])) [0..<10]))"
  proof (rule distinct_concat_map)
    show "distinct [0..<10::nat]" by simp
    show "\<forall>r \<in> set [0..<10]. distinct (concat (map (?P r) [0..6]))" using inner by simp
    show "\<forall>r \<in> set [0..<10]. \<forall>r' \<in> set [0..<10]. r \<noteq> r' \<longrightarrow>
            set (concat (map (?P r) [0..6])) \<inter> set (concat (map (?P r') [0..6])) = {}"
    proof (intro ballI impI)
      fix r r' :: nat assume "r \<noteq> r'"
      then have "({int r} \<times> (UNIV::int set)) \<inter> ({int r'} \<times> UNIV) = {}" by auto
      with inner_set [of r] inner_set [of r']
      show "set (concat (map (?P r) [0..6])) \<inter> set (concat (map (?P r') [0..6])) = {}"
        by blast
    qed
  qed
  moreover have "map position (concat g) = concat (map (\<lambda>r. concat (map (?P r) [0..6])) [0..<10])"
    by (subst g_eq) (simp add: map_concat comp_def)
  ultimately have "distinct (map position (concat (filter (\<lambda>rw. length rw > 0) g)))"
    by (simp only: concat_filter_nonempty)
  with uni lat show ?thesis by (simp only: wf_grid_def simp_thms)
qed

subsection \<open>Sums\<close>

lemma foldl_plus_sum: "foldl (\<lambda>acc b. acc + f b) (a::int) xs = a + sum_list (map f xs)"
  by (induction xs arbitrary: a) auto

lemma currentSum_sum: "currentSum s = sum_list (map value_b (selectedBlocks s))"
  by (simp add: currentSum_def foldl_plus_sum)

subsection \<open>Clearing a well-formed grid\<close>

lemma wf_grid_block:
  "wf_grid g \<Longrightarrow> b \<in> set (concat g) \<Longrightarrow> 0 \<le> col b \<and> col b \<le> 6 \<and> 0 \<le> row b \<and> row b \<le> 9"
  by (fastforce simp: wf_grid_def on_lattice_def GRID_COLS_def GRID_ROWS_def)

lemma cols_list: "[0..GRID_COLS - 1] = [0, 1, 2, 3, 4, 5, 6]"
  by (simp add: GRID_COLS_def upto.simps)

lemma clearAndCompact_wf:
  assumes "wf_grid prev"
  shows "\<exists>g. clearAndCompact ids prev = Inr g \<and> wf_grid g \<and>
          mset (map unplaced (concat g)) =
            mset (map unplaced (filter (\<lambda>b. id_b b \<notin> set ids) (concat prev))) \<and>
          (\<forall>c. rev (filter (\<lambda>b. col b = c) (concat g)) =
                settled (colBlocks (filter (\<lambda>b. id_b b \<notin> set ids) (concat prev)) c))"
proof -
  let ?rem = "filter (\<lambda>b. id_b b \<notin> set ids) (concat prev)"
  have fits: "\<forall>c \<in> {0..6}. length (colBlocks ?rem c) \<le> 10"
    using column_fits [OF assms] by blast
  from clearAndCompact_nth [OF fits] obtain g0 where
    g0: "clearAndCompact ids prev = Inr (filter (\<lambda>rw. length rw > 0) g0)" "length g0 = 10"
        "\<forall>r < 10. g0 ! r = concat (map (\<lambda>c. slot_from 0 (colBlocks ?rem c) r) [0..6])"
    by blast
  let ?g = "filter (\<lambda>rw. length rw > 0) g0"
  have wf: "wf_grid ?g" using g0(2,3) by (rule cleared_wf)
  have in_range: "filter (\<lambda>b. col b \<in> set [0..6]) ?rem = ?rem"
  proof -
    have "\<forall>b \<in> set ?rem. col b \<in> set [0..6]"
      using wf_grid_block [OF assms] by auto
    then show ?thesis by (simp only: filter_id_conv)
  qed
  have ms: "mset (map unplaced (concat ?g)) = mset (map unplaced ?rem)"
    using cleared_mset [OF g0(2,3) fits] by (simp only: concat_filter_nonempty in_range)
  have cols: "rev (filter (\<lambda>b. col b = c) (concat ?g)) = settled (colBlocks ?rem c)" for c
  proof (cases "0 \<le> c \<and> c \<le> 6")
    case True
    then have "length (colBlocks ?rem c) \<le> 10" using fits by simp
    with True column_view [OF g0(2,3), of c]
    have "filter (\<lambda>b. col b = c) (concat g0) = rev (settled (colBlocks ?rem c))" by simp
    then show ?thesis by (simp only: concat_filter_nonempty rev_rev_ident)
  next
    case False
    have "\<forall>b \<in> set (concat g0). col b \<noteq> c"
      using cleared_cols [OF g0(2,3)] False by auto
    then have l: "filter (\<lambda>b. col b = c) (concat g0) = []"
      by (auto simp: filter_empty_conv)
    have "\<forall>b \<in> set ?rem. col b \<noteq> c"
      using wf_grid_block [OF assms] False by auto
    then have "filter (\<lambda>b. col b = c) ?rem = []"
      by (auto simp: filter_empty_conv)
    then have "colBlocks ?rem c = []" by (simp add: colBlocks_def)
    with l show ?thesis by (simp only: concat_filter_nonempty) (simp add: settled_def)
  qed
  from g0(1) wf ms cols show ?thesis by blast
qed

lemma gravity_example:
  "clearAndCompact [''q'']
     [[demo_block ''p'' 3 5 2], [demo_block ''q'' 4 7 2], [demo_block ''r'' 2 9 2]] =
   Inr [[demo_block ''p'' 3 8 2], [demo_block ''r'' 2 9 2]]"
  by (simp add: clearAndCompact_def colBlocks_def demo_block_def cols_list GRID_ROWS_def
      eval_nat_numeral)

subsection \<open>Row insertion and the invariant\<close>

lemma wf_gravity_column: "wf_grid gravity_column"
  by (simp add: gravity_column_def wf_grid_def rows_uniform_def on_lattice_def position_def
      demo_block_def GRID_ROWS_def GRID_COLS_def)

lemma wf_success_state: "wf_grid (grid success_state)"
  by (simp add: success_state_def demo_state_def wf_grid_def rows_uniform_def on_lattice_def
      position_def demo_block_def GRID_ROWS_def GRID_COLS_def)

lemma isFull_iff: "isFull g \<longleftrightarrow> (\<exists>rw \<in> set g. rw \<noteq> [] \<and> row (hd rw) = 0)"
proof -
  have "(case rw of [] \<Rightarrow> False | b # _ \<Rightarrow> row b = 0) = (rw \<noteq> [] \<and> row (hd rw) = 0)"
    for rw :: "Block list"
    by (cases rw) auto
  then show ?thesis by (simp add: isFull_def list_ex_iff)
qed

lemma isFull_uniform:
  assumes "rows_uniform g"
  shows "isFull g \<longleftrightarrow> (\<exists>b \<in> set (concat g). row b = 0)"
proof
  assume "isFull g"
  then obtain rw where "rw \<in> set g" "rw \<noteq> []" "row (hd rw) = 0"
    by (auto simp: isFull_iff)
  then show "\<exists>b \<in> set (concat g). row b = 0"
    by (auto intro!: bexI [of _ "hd rw"] bexI [of _ rw])
next
  assume "\<exists>b \<in> set (concat g). row b = 0"
  then obtain rw b where rw: "rw \<in> set g" "b \<in> set rw" "row b = 0" by auto
  with assms have "row (hd rw) = 0" by (auto simp: rows_uniform_def)
  moreover from rw have "rw \<noteq> []" by auto
  ultimately show "isFull g" using rw(1) by (auto simp: isFull_iff)
qed

lemma createBlock_sel:
  "id_b (createBlock d r c) = fst d" "row (createBlock d r c) = r" "col (createBlock d r c) = c"
  by (simp_all add: createBlock_def)

lemma createBlock_value:
  assumes "0 \<le> snd d" and "snd d < 1"
  shows "1 \<le> value_b (createBlock d r c) \<and> value_b (createBlock d r c) \<le> MAX_VALUE"
proof -
  have "0 \<le> snd d * 9" using assms by simp
  then have lo: "0 \<le> \<lfloor>snd d * 9\<rfloor>" by simp
  have "snd d * 9 < 9" using assms by simp
  then have "\<lfloor>snd d * 9\<rfloor> < 9" by (simp add: floor_less_iff)
  with lo show ?thesis by (simp add: createBlock_def MAX_VALUE_def)
qed

lemma rows_list: "[GRID_ROWS - INITIAL_ROWS..GRID_ROWS - 1] = [6, 7, 8, 9]"
  by (simp add: GRID_ROWS_def INITIAL_ROWS_def upto.simps)

lemma rng_ok_value:
  "rng_ok rng \<Longrightarrow>
   1 \<le> value_b (createBlock (blockDraw rng r c) r' c') \<and>
   value_b (createBlock (blockDraw rng r c) r' c') \<le> MAX_VALUE"
  by (rule createBlock_value) (simp_all add: rng_ok_def)

lemma wf_initialGrid: "wf_grid (initialGrid rng)"
  unfolding initialGrid_def rows_list cols_list
  by (simp add: wf_grid_def rows_uniform_def on_lattice_def
      position_def createBlock_sel GRID_ROWS_def GRID_COLS_def)

lemma values_ok_initialGrid: "rng_ok rng \<Longrightarrow> values_ok (initialGrid rng)"
  by (auto simp: initialGrid_def values_ok_def rng_ok_value)

lemma set_newRow:
  "b \<in> set (newRow rng) \<Longrightarrow>
   \<exists>c. 0 \<le> c \<and> c \<le> 6 \<and> b = createBlock (blockDraw rng (GRID_ROWS - 1) c) (GRID_ROWS - 1) c"
  by (auto simp: newRow_def GRID_COLS_def)

lemma concat_shifted: "concat (shifted g) = map (\<lambda>b. b\<lparr>row := row b - 1\<rparr>) (concat g)"
  by (simp add: shifted_def map_concat comp_def)

lemma wf_shift_append:
  assumes wf: "wf_grid g" and nf: "\<not> isFull g"
  shows "wf_grid (shifted g @ [newRow rng])"
proof -
  let ?dec = "\<lambda>b::Block. b\<lparr>row := row b - 1\<rparr>"
  from wf have uni: "rows_uniform g" by (simp add: wf_grid_def)
  have rng: "1 \<le> row b \<and> row b \<le> 9 \<and> 0 \<le> col b \<and> col b \<le> 6" if "b \<in> set (concat g)" for b
  proof -
    from nf that have "row b \<noteq> 0" by (auto simp: isFull_uniform [OF uni])
    with wf_grid_block [OF wf that] show ?thesis by arith
  qed
  have u1: "rows_uniform (shifted g @ [newRow rng])"
    unfolding rows_uniform_def
  proof (intro ballI)
    fix rw b assume rw: "rw \<in> set (shifted g @ [newRow rng])" and b: "b \<in> set rw"
    show "row b = row (hd rw)"
    proof (cases "rw = newRow rng")
      case True
      have "\<forall>x \<in> set (newRow rng). row x = GRID_ROWS - 1"
        by (auto dest!: set_newRow simp: createBlock_sel)
      moreover from b have "hd rw \<in> set rw" by (cases rw) auto
      ultimately show ?thesis using b True by simp
    next
      case False
      with rw obtain rw0 where rw0: "rw0 \<in> set g" "rw = map ?dec rw0"
        by (auto simp: shifted_def)
      with b obtain b0 where b0: "b0 \<in> set rw0" "b = ?dec b0" by auto
      then have "rw0 \<noteq> []" by auto
      then have "hd rw = ?dec (hd rw0)" using rw0 by (simp add: hd_map)
      moreover from uni rw0 b0 have "row b0 = row (hd rw0)" by (simp add: rows_uniform_def)
      ultimately show ?thesis using b0 by simp
    qed
  qed
  have lat: "\<forall>b \<in> set (concat (shifted g @ [newRow rng])). on_lattice b"
  proof
    fix b assume "b \<in> set (concat (shifted g @ [newRow rng]))"
    then consider b0 where "b0 \<in> set (concat g)" "b = ?dec b0" | "b \<in> set (newRow rng)"
      by (auto simp: concat_shifted)
    then show "on_lattice b"
    proof cases
      case 1
      with rng [of b0] show ?thesis by (simp add: on_lattice_def GRID_ROWS_def GRID_COLS_def)
    next
      case 2
      then show ?thesis
        by (auto dest!: set_newRow simp: createBlock_sel on_lattice_def GRID_ROWS_def GRID_COLS_def)
    qed
  qed
  have p1: "map position (concat (shifted g)) = map (\<lambda>(r, c). (r - 1, c)) (map position (concat g))"
    by (simp add: concat_shifted position_def)
  have "inj (\<lambda>(r::int, c::int). (r - 1, c))" by (auto simp: inj_on_def)
  then have "inj_on (\<lambda>(r::int, c::int). (r - 1, c)) (set (map position (concat g)))"
    by (rule inj_on_subset) simp
  moreover from wf have "distinct (map position (concat g))" by (simp add: wf_grid_def)
  ultimately have d1: "distinct (map position (concat (shifted g)))"
    unfolding p1 by (simp only: distinct_map simp_thms)
  have p2: "map position (newRow rng) = map (\<lambda>c. (GRID_ROWS - 1, c)) [0..GRID_COLS - 1]"
    by (simp add: newRow_def position_def createBlock_sel)
  have d2: "distinct (map position (newRow rng))"
    unfolding p2 by (simp add: distinct_map inj_on_def)
  have d3: "set (map position (concat (shifted g))) \<inter> set (map position (newRow rng)) = {}"
  proof -
    have "\<forall>p \<in> set (map position (concat (shifted g))). fst p \<le> 8"
      using rng by (auto simp: concat_shifted position_def)
    moreover have "\<forall>p \<in> set (map position (newRow rng)). fst p = 9"
      unfolding p2 by (auto simp: GRID_ROWS_def)
    ultimately show ?thesis by fastforce
  qed
  have "distinct (map position (concat (shifted g @ [newRow rng])))"
    using d1 d2 d3 by simp
  with u1 lat show ?thesis by (simp only: wf_grid_def simp_thms)
qed

lemma values_ok_shift_append:
  assumes "values_ok g" and "rng_ok rng"
  shows "values_ok (shifted g @ [newRow rng])"
proof -
  have "\<forall>b \<in> set (newRow rng). 1 \<le> value_b b \<and> value_b b \<le> MAX_VALUE"
    using assms(2) by (auto dest!: set_newRow simp: rng_ok_value)
  with assms(1) show ?thesis
    by (auto simp: values_ok_def concat_shifted)
qed

lemma addNewRow_fields:
  "mode (addNewRow rng s) = mode s" "target (addNewRow rng s) = target s"
  "selectedIds (addNewRow rng s) = selectedIds s" "score (addNewRow rng s) = score s"
  "timeLeft (addNewRow rng s) = timeLeft s" "isPaused (addNewRow rng s) = isPaused s"
  "combo (addNewRow rng s) = combo s"
  by (simp_all add: addNewRow_def Let_def)

lemma addNewRow_wf: "wf_grid (grid s) \<Longrightarrow> wf_grid (grid (addNewRow rng s))"
  by (simp add: addNewRow_def Let_def wf_shift_append)

lemma addNewRow_values:
  "values_ok (grid s) \<Longrightarrow> rng_ok rng \<Longrightarrow> values_ok (grid (addNewRow rng s))"
  by (simp add: addNewRow_def Let_def values_ok_shift_append)

lemma cleared_values:
  assumes "mset (map unplaced (concat g)) = mset (map unplaced (filter P (concat prev)))"
    and "values_ok prev"
  shows "values_ok g"
  unfolding values_ok_def
proof
  fix b assume "b \<in> set (concat g)"
  then have "unplaced b \<in> set (map unplaced (concat g))" by simp
  also have "set (map unplaced (concat g)) = set (map unplaced (filter P (concat prev)))"
    using assms(1) by (rule mset_eq_setD)
  finally obtain b0 where "b0 \<in> set (concat prev)" "unplaced b = unplaced b0" by auto
  with assms(2) show "1 \<le> value_b b \<and> value_b b \<le> MAX_VALUE"
    by (auto simp: values_ok_def unplaced_def)
qed

lemma currentSum_nonneg: "values_ok (grid s) \<Longrightarrow> 0 \<le> currentSum s"
  unfolding currentSum_sum
  by (rule sum_list_nonneg) (fastforce simp: selectedBlocks_def values_ok_def)

text \<open>
  Every transition keeps the invariant and never throws; a transition of a round never
  lowers the score.
\<close>

lemma invariant_initialState: "invariant initialState"
  by (simp add: invariant_def initialState_def wf_grid_def rows_uniform_def values_ok_def
      TIME_LIMIT_def)

lemma checkSum_success:
  assumes "wf_grid (grid s)" and "currentSum s = target s" and "target s \<noteq> 0"
  shows "\<exists>g. clearAndCompact (selectedIds s) (grid s) = Inr g \<and> wf_grid g \<and>
           mset (map unplaced (concat g)) =
             mset (map unplaced (filter (\<lambda>b. id_b b \<notin> set (selectedIds s)) (concat (grid s)))) \<and>
           checkSum rng s =
             Inr (let s1 = s\<lparr>score := score s + target s * int (length (selectedBlocks s)) * combo s,
                             grid := g, selectedIds := []\<rparr>
                  in if mode s = Some Classic then addNewRow rng s1
                     else s1\<lparr>timeLeft := TIME_LIMIT, combo := min (combo s + 1) 5\<rparr>)"
proof -
  from clearAndCompact_wf [OF assms(1), of "selectedIds s"] obtain g where
    g: "clearAndCompact (selectedIds s) (grid s) = Inr g" "wf_grid g"
       "mset (map unplaced (concat g)) =
          mset (map unplaced (filter (\<lambda>b. id_b b \<notin> set (selectedIds s)) (concat (grid s))))"
    by blast
  with assms(2,3) show ?thesis by (simp add: checkSum_def Let_def)
qed

lemma checkSum_other:
  "\<not> (currentSum s = target s \<and> target s \<noteq> 0) \<Longrightarrow>
   checkSum rng s =
     Inr (if currentSum s > target s then s\<lparr>selectedIds := [], combo := 1\<rparr> else s)"
  by (auto simp: checkSum_def)

lemma points_nonneg:
  assumes "invariant s" and "currentSum s = target s"
  shows "0 \<le> target s * int (length (selectedBlocks s)) * combo s"
proof -
  from assms have "0 \<le> target s" using currentSum_nonneg [of s] by (simp add: invariant_def)
  moreover from assms(1) have "0 \<le> combo s" by (simp add: invariant_def)
  ultimately show ?thesis by simp
qed

lemma checkSum_invariant:
  assumes inv: "invariant s" and ok: "rng_ok rng"
  shows "\<exists>s'. checkSum rng s = Inr s' \<and> invariant s' \<and> score s \<le> score s'"
proof (cases "currentSum s = target s \<and> target s \<noteq> 0")
  case True
  from inv have wf: "wf_grid (grid s)" and vals: "values_ok (grid s)"
    by (simp_all add: invariant_def)
  from checkSum_success [OF wf, of rng] True obtain g where
    g: "wf_grid g"
       "mset (map unplaced (concat g)) =
          mset (map unplaced (filter (\<lambda>b. id_b b \<notin> set (selectedIds s)) (concat (grid s))))"
       "checkSum rng s =
             Inr (let s1 = s\<lparr>score := score s + target s * int (length (selectedBlocks s)) * combo s,
                             grid := g, selectedIds := []\<rparr>
                  in if mode s = Some Classic then addNewRow rng s1
                     else s1\<lparr>timeLeft := TIME_LIMIT, combo := min (combo s + 1) 5\<rparr>)"
    by blast
  have gv: "values_ok g" using g(2) vals by (rule cleared_values)
  have pts: "0 \<le> target s * int (length (selectedBlocks s)) * combo s"
    using inv True by (simp add: points_nonneg)
  let ?s1 = "s\<lparr>score := score s + target s * int (length (selectedBlocks s)) * combo s,
               grid := g, selectedIds := []\<rparr>"
  show ?thesis
  proof (cases "mode s = Some Classic")
    case True
    have "wf_grid (grid (addNewRow rng ?s1))" using g(1) by (simp add: addNewRow_wf)
    moreover have "values_ok (grid (addNewRow rng ?s1))" using gv ok by (simp add: addNewRow_values)
    ultimately have "invariant (addNewRow rng ?s1)"
      using inv pts by (simp add: invariant_def addNewRow_fields)
    moreover have "score s \<le> score (addNewRow rng ?s1)"
      using pts by (simp add: addNewRow_fields)
    ultimately show ?thesis using g(3) True by (simp add: Let_def)
  next
    case False
    have "invariant (?s1\<lparr>timeLeft := TIME_LIMIT, combo := min (combo s + 1) 5\<rparr>)"
      using inv pts g(1) gv False by (simp add: invariant_def TIME_LIMIT_def)
    then show ?thesis using g(3) False pts by (simp add: Let_def)
  qed
next
  case False
  from inv have "invariant (s\<lparr>selectedIds := [], combo := 1\<rparr>)" by (simp add: invariant_def)
  with inv show ?thesis by (simp add: checkSum_other [OF False])
qed

lemma tick_invariant:
  assumes inv: "invariant s" and ok: "rng_ok rng"
  shows "invariant (tick rng s) \<and> score (tick rng s) = score s"
proof -
  have "wf_grid (grid (addNewRow rng s))" using inv by (simp add: invariant_def addNewRow_wf)
  moreover have "values_ok (grid (addNewRow rng s))"
    using inv ok by (simp add: invariant_def addNewRow_values)
  ultimately show ?thesis
    using inv by (simp add: tick_def Let_def invariant_def addNewRow_fields TIME_LIMIT_def)
qed

lemma step_invariant:
  assumes inv: "invariant s" and ok: "rng_ok rng"
  shows "\<exists>s'. step ev rng s = Inr s' \<and> invariant s' \<and> (in_round ev \<longrightarrow> score s \<le> score s')"
proof (cases ev)
  case (StartGame m)
  then show ?thesis
    using ok by (simp add: startGame_def invariant_def wf_initialGrid values_ok_initialGrid
        TIME_LIMIT_def)
next
  case (Click b)
  then show ?thesis using inv by (simp add: handleBlockClick_def invariant_def)
next
  case CheckSum
  then show ?thesis using checkSum_invariant [OF inv ok] by auto
next
  case Tick
  then show ?thesis using tick_invariant [OF inv ok] by simp
next
  case NewTarget
  then show ?thesis using inv by (simp add: newTarget_def invariant_def)
next
  case TogglePause
  then show ?thesis using inv by (simp add: invariant_def)
next
  case Resume
  then show ?thesis using inv by (simp add: invariant_def)
next
  case Menu
  then show ?thesis using inv by (simp add: invariant_def)
qed

lemma reachable_invariant: "reachable s \<Longrightarrow> invariant s"
proof (induction rule: reachable.induct)
  case reachable_init
  show ?case by (rule invariant_initialState)
next
  case (reachable_step s rng ev s')
  with step_invariant [of s rng ev] show ?case by auto
qed

lemma reachable_never_throws:
  "reachable s \<Longrightarrow> rng_ok rng \<Longrightarrow> \<exists>s'. step ev rng s = Inr s' \<and> reachable s'"
  using step_invariant [OF reachable_invariant, of s rng ev] reachable_step [of s rng ev]
  by blast

lemma run_score:
  assumes "invariant s" and "\<forall>(ev, rng) \<in> set evs. in_round ev \<and> rng_ok rng"
  shows "\<exists>s'. run evs s = Inr s' \<and> invariant s' \<and> score s \<le> score s'"
  using assms
proof (induction evs arbitrary: s)
  case Nil
  then show ?case by simp
next
  case (Cons e evs)
  obtain ev rng where e: "e = (ev, rng)" by (cases e)
  with Cons.prems have ok: "in_round ev" "rng_ok rng" by auto
  from step_invariant [OF Cons.prems(1) ok(2), of ev] ok(1) obtain s1 where
    s1: "step ev rng s = Inr s1" "invariant s1" "score s \<le> score s1" by blast
  from Cons.IH [OF s1(2)] Cons.prems(2) obtain s' where
    "run evs s1 = Inr s'" "invariant s'" "score s1 \<le> score s'" by auto
  with s1 e show ?case by auto
qed

subsection \<open>The example states\<close>

lemma rng_ok_demo: "rng_ok demo_rng"
  by (simp add: rng_ok_def demo_rng_def)

lemma reachable_ready: "reachable (ready_state m)"
proof -
  have "reachable (startGame m demo_rng initialState)"
    using reachable_step [OF reachable_init rng_ok_demo, of "StartGame m"] by simp
  then have "reachable (handleBlockClick first_block (startGame m demo_rng initialState))"
    using reachable_step [OF _ rng_ok_demo, of _ "Click first_block"] by simp
  then show ?thesis
    unfolding ready_state_def
    using reachable_step [OF _ rng_ok_demo, of _ "Click second_block"] by simp
qed

lemma initialGrid_demo:
  "concat (initialGrid demo_rng) =
     map (\<lambda>(r, c). \<lparr>id_b = replicate (nat r) CHR ''r'' @ replicate (nat c) CHR ''c'',
                    value_b = 5, row = r, col = c\<rparr>)
       (List.product [6, 7, 8, 9] [0, 1, 2, 3, 4, 5, 6])"
  unfolding initialGrid_def rows_list cols_list
  by (simp add: createBlock_def demo_rng_def MAX_VALUE_def)

lemma ready_parts:
  "grid (ready_state m) = initialGrid demo_rng"
  "selectedIds (ready_state m) = [''rrrrrr'', ''rrrrrrc'']"
  "target (ready_state m) = generateTarget demo_rng (initialGrid demo_rng)"
  "mode (ready_state m) = Some m" "combo (ready_state m) = 1" "score (ready_state m) = 0"
  by (simp_all add: ready_state_def handleBlockClick_def startGame_def initialState_def
      first_block_def second_block_def createBlock_sel demo_rng_def eval_nat_numeral)

lemma target_demo: "generateTarget demo_rng (initialGrid demo_rng) = 10"
  unfolding generateTarget_def initialGrid_demo
  by (simp add: demo_rng_def eval_nat_numeral)

lemma ready_selected:
  "map value_b (selectedBlocks (ready_state m)) = [5, 5]"
  unfolding selectedBlocks_def ready_parts initialGrid_demo
  by (simp add: eval_nat_numeral)

lemma ready_sum: "currentSum (ready_state m) = 10" "length (selectedBlocks (ready_state m)) = 2"
  using ready_selected [of m] length_map [of value_b "selectedBlocks (ready_state m)"]
  by (simp_all add: currentSum_sum)

lemma reachable_run:
  assumes "reachable s" and "list_all (\<lambda>(ev, rng). rng_ok rng) evs"
  shows "\<exists>s'. run evs s = Inr s' \<and> reachable s'"
  using assms
proof (induction evs arbitrary: s)
  case Nil
  then show ?case by simp
next
  case (Cons e evs)
  obtain ev rng where e: "e = (ev, rng)" by (cases e)
  with Cons.prems have ok: "rng_ok rng" by simp
  from reachable_never_throws [OF Cons.prems(1) ok, of ev] obtain s1 where
    s1: "step ev rng s = Inr s1" "reachable s1" by blast
  from Cons.IH [OF s1(2)] Cons.prems(2) obtain s' where "run evs s1 = Inr s'" "reachable s'"
    by auto
  with s1 e show ?case by auto
qed

lemma ready_success:
  "\<exists>s'. checkSum demo_rng (ready_state m) = Inr s' \<and> reachable s' \<and>
        combo s' = (if m = Classic then 1 else 2) \<and> score s' = 20"
proof -
  have wf: "wf_grid (grid (ready_state m))"
    using reachable_invariant [OF reachable_ready] by (simp add: invariant_def)
  have eq: "currentSum (ready_state m) = target (ready_state m)" "target (ready_state m) \<noteq> 0"
    by (simp_all add: ready_sum ready_parts target_demo)
  from checkSum_success [OF wf eq, of demo_rng] obtain s' where
    s': "checkSum demo_rng (ready_state m) = Inr s'"
        "combo s' = (if m = Classic then 1 else 2)" "score s' = 20"
    by (auto simp: Let_def ready_parts ready_sum target_demo addNewRow_fields)
  moreover have "reachable s'"
    using reachable_step [OF reachable_ready rng_ok_demo, of CheckSum m s'] s'(1) by simp
  ultimately show ?thesis by blast
qed

subsection \<open>Targets\<close>

lemma ex_subseq:
  "mset ys \<subseteq># mset xs \<Longrightarrow> \<exists>zs \<in> set (subseqs xs). mset zs = mset ys"
proof (induction xs arbitrary: ys)
  case Nil
  then show ?case by simp
next
  case (Cons x xs)
  show ?case
  proof (cases "x \<in> set ys")
    case True
    have "mset (remove1 x ys) \<subseteq># mset xs"
      using Cons.prems True
      by (simp add: insert_subset_eq_iff subset_eq_diff_conv)
    from Cons.IH [OF this] obtain zs where zs: "zs \<in> set (subseqs xs)" "mset zs = mset (remove1 x ys)"
      by blast
    have "mset (x # zs) = mset ys" using zs(2) True by simp
    moreover have "x # zs \<in> set (subseqs (x # xs))" using zs(1) by (simp add: Let_def)
    ultimately show ?thesis by blast
  next
    case False
    have "mset ys \<subseteq># mset xs"
      using Cons.prems False
      by (metis add_mset_remove_trivial_eq diff_single_trivial in_multiset_in_set mset.simps(2) subset_eq_diff_conv add_mset_add_single)
    from Cons.IH [OF this] obtain zs where "zs \<in> set (subseqs xs)" "mset zs = mset ys" by blast
    then show ?thesis by (auto simp: Let_def)
  qed
qed

lemma count_range:
  assumes "0 \<le> (u::real)" and "u < 1"
  shows "2 \<le> nat (\<lfloor>u * 3\<rfloor> + 2) \<and> nat (\<lfloor>u * 3\<rfloor> + 2) \<le> 4"
proof -
  have "0 \<le> u * 3" using assms by simp
  then have lo: "0 \<le> \<lfloor>u * 3\<rfloor>" by simp
  have "u * 3 < 3" using assms by simp
  then have "\<lfloor>u * 3\<rfloor> < 3" by (simp add: floor_less_iff)
  with lo show ?thesis by arith
qed

subsection \<open>Selections\<close>

lemma addNewRow_ids: "grid_ids s \<subseteq> grid_ids (addNewRow rng s)"
proof (cases "isFull (grid s)")
  case True
  then have "grid (addNewRow rng s) = grid s" by (simp add: addNewRow_def)
  then show ?thesis by (simp add: grid_ids_def)
next
  case False
  then have g: "grid (addNewRow rng s) = shifted (grid s) @ [newRow rng]"
    by (simp add: addNewRow_def)
  have "id_b ` set (concat (shifted (grid s))) = id_b ` set (concat (grid s))"
    unfolding concat_shifted set_map image_image by simp
  then have "grid_ids (addNewRow rng s) = grid_ids s \<union> id_b ` set (newRow rng)"
    unfolding grid_ids_def g concat_append set_append image_Un by simp
  then show ?thesis by blast
qed

lemma grid_ids_cong: "grid s' = grid s \<Longrightarrow> grid_ids s' = grid_ids s"
  by (simp add: grid_ids_def)

lemma checkSum_selection:
  assumes "set (selectedIds s) \<subseteq> grid_ids s" and "checkSum rng s = Inr s'"
  shows "set (selectedIds s') \<subseteq> grid_ids s'"
proof (cases "currentSum s = target s \<and> target s \<noteq> 0")
  case True
  with assms(2) obtain g where
    "s' = (let s1 = s\<lparr>score := score s + target s * int (length (selectedBlocks s)) * combo s,
                       grid := g, selectedIds := []\<rparr>
           in if mode s = Some Classic then addNewRow rng s1
              else s1\<lparr>timeLeft := TIME_LIMIT, combo := min (combo s + 1) 5\<rparr>)"
    by (auto simp: checkSum_def Let_def split: sum.splits)
  then have "selectedIds s' = []" by (simp add: Let_def addNewRow_fields)
  then show ?thesis by simp
next
  case False
  from assms(2) have "s' = (if currentSum s > target s then s\<lparr>selectedIds := [], combo := 1\<rparr> else s)"
    by (simp add: checkSum_other [OF False])
  with assms(1) show ?thesis by (auto simp: grid_ids_def)
qed

lemma click_selection:
  assumes "set (selectedIds s) \<subseteq> grid_ids s" and "id_b b \<in> grid_ids s"
  shows "set (selectedIds (handleBlockClick b s)) \<subseteq> grid_ids (handleBlockClick b s)"
proof -
  have "grid_ids (handleBlockClick b s) = grid_ids s"
    by (rule grid_ids_cong) (simp add: handleBlockClick_def)
  moreover have "set (selectedIds (handleBlockClick b s)) \<subseteq> insert (id_b b) (set (selectedIds s))"
    by (auto simp: handleBlockClick_def Let_def)
  ultimately show ?thesis using assms by blast
qed

lemma tick_selection:
  assumes "set (selectedIds s) \<subseteq> grid_ids s"
  shows "set (selectedIds (tick rng s)) \<subseteq> grid_ids (tick rng s)"
proof -
  have "selectedIds (tick rng s) = selectedIds s"
    by (simp add: tick_def Let_def addNewRow_fields)
  moreover have "grid_ids s \<subseteq> grid_ids (tick rng s)"
  proof (cases "tick rng s = (addNewRow rng s)\<lparr>combo := 1, timeLeft := TIME_LIMIT\<rparr>")
    case True
    have "grid_ids ((addNewRow rng s)\<lparr>combo := 1, timeLeft := TIME_LIMIT\<rparr>) = grid_ids (addNewRow rng s)"
      by (rule grid_ids_cong) simp
    with True addNewRow_ids [of s rng] show ?thesis by simp
  next
    case False
    then have "grid (tick rng s) = grid s" by (auto simp: tick_def Let_def split: if_splits)
    then show ?thesis by (simp add: grid_ids_def)
  qed
  ultimately show ?thesis using assms by simp
qed

lemma step_selection:
  assumes "set (selectedIds s) \<subseteq> grid_ids s" and "offered ev s" and "step ev rng s = Inr s'"
  shows "set (selectedIds s') \<subseteq> grid_ids s'"
proof (cases ev)
  case (StartGame m)
  with assms(3) have "selectedIds s' = []" by (auto simp: startGame_def)
  then show ?thesis by simp
next
  case (Click b)
  with assms(2) have "id_b b \<in> grid_ids s" by (simp add: grid_ids_def)
  from click_selection [OF assms(1) this] assms(3) Click show ?thesis by auto
next
  case CheckSum
  with assms(3) have "checkSum rng s = Inr s'" by simp
  with assms(1) show ?thesis by (rule checkSum_selection)
next
  case Tick
  with assms(3) tick_selection [OF assms(1), of rng] show ?thesis by auto
next
  case NewTarget
  with assms(1,3) show ?thesis by (auto simp: newTarget_def grid_ids_def)
next
  case TogglePause
  with assms(1,3) show ?thesis by (auto simp: grid_ids_def)
next
  case Resume
  with assms(1,3) show ?thesis by (auto simp: grid_ids_def)
next
  case Menu
  with assms(1,3) show ?thesis by (auto simp: grid_ids_def)
qed

lemma ui_reachable_selection: "ui_reachable s \<Longrightarrow> set (selectedIds s) \<subseteq> grid_ids s"
proof (induction rule: ui_reachable.induct)
  case ui_init
  show ?case by (simp add: initialState_def)
next
  case (ui_step s rng ev s')
  from step_selection [OF ui_step.IH ui_step.hyps(3,4)] show ?case .
qed

lemma absent_toggle_blocks:
  assumes "id_b b \<notin> grid_ids s"
  shows "selectedBlocks (handleBlockClick b s) = selectedBlocks s"
proof -
  have "(id_b x \<in> set (selectedIds (handleBlockClick b s))) = (id_b x \<in> set (selectedIds s))"
    if "x \<in> set (concat (grid s))" for x
  proof -
    from that have "id_b x \<in> grid_ids s" unfolding grid_ids_def by (rule imageI)
    with assms have ne: "id_b x \<noteq> id_b b" by metis
    show ?thesis
    proof (cases "gameOver s \<or> isPaused s")
      case True
      then show ?thesis by (simp add: handleBlockClick_def)
    next
      case False
      then have "selectedIds (handleBlockClick b s) =
          (if id_b b \<in> set (selectedIds s) then filter (\<lambda>i. i \<noteq> id_b b) (selectedIds s)
           else selectedIds s @ [id_b b])"
        by (simp add: handleBlockClick_def Let_def)
      with ne show ?thesis by simp
    qed
  qed
  note eq = this
  have g: "grid (handleBlockClick b s) = grid s" by (simp add: handleBlockClick_def)
  show ?thesis
    unfolding selectedBlocks_def g by (rule filter_cong [OF refl]) (rule eq)
qed

lemma toggle_changes_selection:
  assumes "\<not> gameOver s" and "\<not> isPaused s"
  shows "selectedIds (handleBlockClick b s) \<noteq> selectedIds s"
proof (cases "id_b b \<in> set (selectedIds s)")
  case True
  then have "id_b b \<notin> set (selectedIds (handleBlockClick b s))"
    using assms by (simp add: handleBlockClick_def)
  with True show ?thesis by metis
next
  case False
  then show ?thesis using assms by (simp add: handleBlockClick_def)
qed

lemma ids_demo:
  "id_b ` set (concat (initialGrid demo_rng)) =
     (\<lambda>(r, c). replicate (nat r) CHR ''r'' @ replicate (nat c) CHR ''c'') `
       set (List.product [6, 7, 8, 9] [0, 1, 2, 3, 4, 5, 6])"
  unfolding initialGrid_demo set_map image_image by (simp add: case_prod_beta)

lemma stray_absent: "''zz'' \<notin> id_b ` set (concat (initialGrid demo_rng))"
  unfolding ids_demo by (simp add: eval_nat_numeral)

lemma stray_id: "id_b stray_block = ''zz''"
  by (simp add: stray_block_def demo_block_def)

lemma ui_reachable_ready: "ui_reachable (ready_state m)"
proof -
  let ?s0 = "startGame m demo_rng initialState"
  have g0: "grid ?s0 = initialGrid demo_rng" by (simp add: startGame_def)
  have mem: "first_block \<in> set (concat (initialGrid demo_rng))"
    "second_block \<in> set (concat (initialGrid demo_rng))"
    unfolding initialGrid_demo
    by (simp_all add: first_block_def second_block_def createBlock_def demo_rng_def MAX_VALUE_def
        image_iff)
  have u0: "ui_reachable ?s0"
    using ui_step [OF ui_init rng_ok_demo, of "StartGame m"] by simp
  have o1: "offered (Click first_block) ?s0" unfolding offered.simps g0 by (rule mem)
  have u1: "ui_reachable (handleBlockClick first_block ?s0)"
    using ui_step [OF u0 rng_ok_demo o1] by simp
  have g1: "grid (handleBlockClick first_block ?s0) = initialGrid demo_rng"
    by (simp add: handleBlockClick_def g0)
  have o2: "offered (Click second_block) (handleBlockClick first_block ?s0)"
    unfolding offered.simps g1 by (rule mem)
  show ?thesis
    unfolding ready_state_def using ui_step [OF u1 rng_ok_demo o2] by simp
qed

section \<open>The claims\<close>

subsection \<open>A successful evaluation\<close>

text \<open>
  Claim C1. In a state that is neither paused nor over, whose grid is well formed (as
  the grid of every reachable state is), when the values of the selected blocks sum to a
  target that is not 0, the evaluation does not throw, adds
  \<open>target * (number of selected blocks) * combo\<close> to the score, empties \<open>selectedIds\<close>, and
  clears the grid of exactly the selected blocks: up to their rows, the blocks of the
  cleared grid \<open>g\<close> are the unselected blocks. Outside classic mode \<open>g\<close> is the new grid; in
  classic mode the row insertion that follows in the same effect is applied to \<open>g\<close>.
\<close>

theorem success_awards_and_clears:
  assumes "\<not> isPaused s" and "\<not> gameOver s" and "wf_grid (grid s)"
    and "currentSum s = target s" and "target s \<noteq> 0"
  shows "\<exists>g s'. clearAndCompact (selectedIds s) (grid s) = Inr g \<and> checkSum rng s = Inr s' \<and>
           score s' = score s + target s * int (length (selectedBlocks s)) * combo s \<and>
           selectedIds s' = [] \<and>
           mset (map unplaced (concat g)) =
             mset (map unplaced (filter (\<lambda>b. id_b b \<notin> set (selectedIds s)) (concat (grid s)))) \<and>
           (mode s \<noteq> Some Classic \<longrightarrow> grid s' = g) \<and>
           (mode s = Some Classic \<longrightarrow>
              grid s' = (if isFull g then g else shifted g @ [newRow rng]))"
proof -
  from clearAndCompact_wf [OF assms(3), of "selectedIds s"] obtain g where
    g: "clearAndCompact (selectedIds s) (grid s) = Inr g"
       "mset (map unplaced (concat g)) =
          mset (map unplaced (filter (\<lambda>b. id_b b \<notin> set (selectedIds s)) (concat (grid s))))"
    by blast
  show ?thesis
  proof (cases "mode s = Some Classic")
    case True
    with g assms(4,5) show ?thesis
      by (simp add: checkSum_def addNewRow_def Let_def)
  next
    case False
    with g assms(4,5) show ?thesis
      by (simp add: checkSum_def Let_def)
  qed
qed

text \<open>
  The example of the spec: the blocks 3, 4 and 2 are selected, the target is 9, the
  combo is 3 and the score is 40.
\<close>

theorem success_awards_and_clears_witness:
  "\<not> isPaused success_state \<and> \<not> gameOver success_state \<and> wf_grid (grid success_state) \<and>
   currentSum success_state = target success_state \<and> target success_state \<noteq> 0 \<and>
   (\<exists>s'. checkSum demo_rng success_state = Inr s' \<and> score s' = 40 + 9 * 3 * 3 \<and>
         selectedIds s' = [])"
proof -
  have h: "\<not> isPaused success_state" "\<not> gameOver success_state"
    "currentSum success_state = target success_state" "target success_state \<noteq> 0"
    by (simp_all add: success_state_def demo_state_def currentSum_def selectedBlocks_def
        demo_block_def)
  have n: "length (selectedBlocks success_state) = 3" "score success_state = 40"
    "target success_state = 9" "combo success_state = 3"
    by (simp_all add: success_state_def demo_state_def selectedBlocks_def demo_block_def)
  from success_awards_and_clears [OF h(1,2) wf_success_state h(3,4), of demo_rng]
  show ?thesis using h wf_success_state by (auto simp: n)
qed

subsection \<open>Row insertion\<close>

text \<open>
  Claim C2. On a grid whose inner lists each hold the blocks of one row (as every
  reachable grid does): when some block occupies row 0, \<open>addNewRow\<close> leaves the grid unchanged
  and sets \<open>gameOver\<close>; when no block occupies row 0, it lowers the row index of every block
  by exactly 1, leaving id, value and column as they are, keeps \<open>gameOver\<close>, and appends a
  row of \<open>GRID_COLS\<close> newly created blocks, one per column, at row \<open>GRID_ROWS - 1\<close>.
\<close>

theorem addNewRow_overflow_or_shift:
  assumes "rows_uniform (grid s)"
  shows "((\<exists>b \<in> set (concat (grid s)). row b = 0) \<longrightarrow>
            grid (addNewRow rng s) = grid s \<and> gameOver (addNewRow rng s)) \<and>
         ((\<forall>b \<in> set (concat (grid s)). row b \<noteq> 0) \<longrightarrow>
            grid (addNewRow rng s) =
              map (map (\<lambda>b. b\<lparr>row := row b - 1\<rparr>)) (grid s) @ [newRow rng] \<and>
            gameOver (addNewRow rng s) = gameOver s \<and>
            length (newRow rng) = nat GRID_COLS \<and>
            (\<forall>i < nat GRID_COLS.
               newRow rng ! i =
                 createBlock (blockDraw rng (GRID_ROWS - 1) (int i)) (GRID_ROWS - 1) (int i)))"
proof -
  note full = isFull_uniform [OF assms]
  have nr: "length (newRow rng) = nat GRID_COLS"
    "\<forall>i < nat GRID_COLS.
       newRow rng ! i = createBlock (blockDraw rng (GRID_ROWS - 1) (int i)) (GRID_ROWS - 1) (int i)"
    by (simp_all add: newRow_def GRID_COLS_def)
  show ?thesis
    using nr by (auto simp: addNewRow_def full shifted_def Let_def)
qed

text \<open>
  One grid with a block at row 0, one with blocks at rows 5, 7 and 9.
\<close>

theorem addNewRow_overflow_or_shift_witness:
  "rows_uniform overflow_grid \<and> (\<exists>b \<in> set (concat overflow_grid). row b = 0) \<and>
   grid (addNewRow demo_rng (demo_state overflow_grid 9 [])) = overflow_grid \<and>
   gameOver (addNewRow demo_rng (demo_state overflow_grid 9 [])) \<and>
   rows_uniform gravity_column \<and> list_all (\<lambda>b. row b \<noteq> 0) (concat gravity_column) \<and>
   grid (addNewRow demo_rng (demo_state gravity_column 9 [])) =
     [[demo_block ''p'' 3 4 2], [demo_block ''q'' 4 6 2], [demo_block ''r'' 2 8 2],
      newRow demo_rng] \<and>
   \<not> gameOver (addNewRow demo_rng (demo_state gravity_column 9 []))"
proof -
  have u1: "rows_uniform (grid (demo_state overflow_grid 9 []))"
    and u2: "rows_uniform (grid (demo_state gravity_column 9 []))"
    by (simp_all add: rows_uniform_def demo_state_def overflow_grid_def gravity_column_def)
  have r1: "\<exists>b \<in> set (concat overflow_grid). row b = 0"
    and r2: "list_all (\<lambda>b. row b \<noteq> 0) (concat gravity_column)"
    by (simp_all add: overflow_grid_def gravity_column_def demo_block_def)
  from r2 have r2': "\<forall>b \<in> set (concat gravity_column). row b \<noteq> 0" by (simp add: list_all_iff)
  have g: "grid (demo_state overflow_grid 9 []) = overflow_grid"
    "grid (demo_state gravity_column 9 []) = gravity_column"
    "\<not> gameOver (demo_state gravity_column 9 [])"
    by (simp_all add: demo_state_def)
  have sh: "map (map (\<lambda>b. b\<lparr>row := row b - 1\<rparr>)) gravity_column =
      [[demo_block ''p'' 3 4 2], [demo_block ''q'' 4 6 2], [demo_block ''r'' 2 8 2]]"
    by (simp add: gravity_column_def demo_block_def)
  from addNewRow_overflow_or_shift [OF u1, of demo_rng] r1
  have a: "grid (addNewRow demo_rng (demo_state overflow_grid 9 [])) = overflow_grid \<and>
      gameOver (addNewRow demo_rng (demo_state overflow_grid 9 []))"
    by (simp only: g)
  from addNewRow_overflow_or_shift [OF u2, of demo_rng] r2'
  have b: "grid (addNewRow demo_rng (demo_state gravity_column 9 [])) =
      [[demo_block ''p'' 3 4 2], [demo_block ''q'' 4 6 2], [demo_block ''r'' 2 8 2],
       newRow demo_rng] \<and>
      \<not> gameOver (addNewRow demo_rng (demo_state gravity_column 9 []))"
    by (simp add: g sh)
  from a b u1 u2 r1 r2 show ?thesis by (simp only: g simp_thms)
qed

subsection \<open>Clearing and gravity\<close>

text \<open>
  Claim C3. On a well-formed grid, clearing does not throw and removes exactly the blocks
  whose ids are in \<open>ids\<close>: up to their rows, the blocks of the new grid are the blocks whose
  id is not in \<open>ids\<close>. Every column is settled on its own: read from the bottom up, column
  \<open>c\<close> of the new grid is \<open>colBlocks\<close> of the survivors, the surviving blocks of that column
  in order of descending original row, now at the rows \<open>GRID_ROWS - 1\<close>, \<open>GRID_ROWS - 2\<close>,
  and so on. In particular a column with blocks at rows 5, 7 and 9 whose row-7 block is
  cleared ends with exactly two blocks: the former row-5 block at row 8, above the former
  row-9 block at row 9.
\<close>

theorem clearing_settles_columns:
  assumes "wf_grid prev"
  shows "(\<exists>g. clearAndCompact ids prev = Inr g \<and>
            mset (map unplaced (concat g)) =
              mset (map unplaced (filter (\<lambda>b. id_b b \<notin> set ids) (concat prev))) \<and>
            (\<forall>c. rev (filter (\<lambda>b. col b = c) (concat g)) =
                  settled (colBlocks (filter (\<lambda>b. id_b b \<notin> set ids) (concat prev)) c))) \<and>
         (\<forall>c. mset (colBlocks (filter (\<lambda>b. id_b b \<notin> set ids) (concat prev)) c) =
                mset (filter (\<lambda>b. col b = c) (filter (\<lambda>b. id_b b \<notin> set ids) (concat prev))) \<and>
              sorted_wrt (\<lambda>a b. row b \<le> row a)
                (colBlocks (filter (\<lambda>b. id_b b \<notin> set ids) (concat prev)) c)) \<and>
         clearAndCompact [''q'']
           [[demo_block ''p'' 3 5 2], [demo_block ''q'' 4 7 2], [demo_block ''r'' 2 9 2]] =
         Inr [[demo_block ''p'' 3 8 2], [demo_block ''r'' 2 9 2]]"
  using clearAndCompact_wf [OF assms, of ids] gravity_example mset_colBlocks colBlocks_sorted
  by blast

text \<open>
  The column of the example, read from the bottom up after the row-7 block is cleared.
\<close>

theorem clearing_settles_columns_witness:
  "wf_grid gravity_column \<and>
   (\<exists>g. clearAndCompact [''q''] gravity_column = Inr g \<and>
        rev (filter (\<lambda>b. col b = 2) (concat g)) =
          [demo_block ''r'' 2 9 2, demo_block ''p'' 3 8 2])"
proof -
  have "settled (colBlocks (filter (\<lambda>b. id_b b \<notin> set [''q'']) (concat gravity_column)) 2) =
        [demo_block ''r'' 2 9 2, demo_block ''p'' 3 8 2]"
    by (simp add: gravity_column_def settled_def colBlocks_def demo_block_def GRID_ROWS_def
        enumerate_eq_zip upt_rec)
  moreover from clearing_settles_columns [OF wf_gravity_column, of "[''q'']"] obtain g where
    "clearAndCompact [''q''] gravity_column = Inr g"
    "\<forall>c. rev (filter (\<lambda>b. col b = c) (concat g)) =
         settled (colBlocks (filter (\<lambda>b. id_b b \<notin> set [''q'']) (concat gravity_column)) c)"
    by blast
  ultimately have "clearAndCompact [''q''] gravity_column = Inr g \<and>
      rev (filter (\<lambda>b. col b = 2) (concat g)) = [demo_block ''r'' 2 9 2, demo_block ''p'' 3 8 2]"
    by simp
  with wf_gravity_column show ?thesis by blast
qed

subsection \<open>A bust\<close>

text \<open>
  Claim C4. Whenever the sum of the values of the selected blocks is strictly greater
  than the target, the evaluation resets \<open>selectedIds\<close> to the empty list and \<open>combo\<close> to 1
  and leaves the grid and the score as they were.
\<close>

theorem bust_resets:
  assumes "currentSum s > target s"
  shows "\<exists>s'. checkSum rng s = Inr s' \<and> selectedIds s' = [] \<and> combo s' = 1 \<and>
              grid s' = grid s \<and> score s' = score s"
  using assms by (simp add: checkSum_def)

text \<open>
  One block of value 5 is selected and the target is 3.
\<close>

theorem bust_resets_witness:
  "currentSum bust_state > target bust_state \<and>
   (\<exists>s'. checkSum demo_rng bust_state = Inr s' \<and> selectedIds s' = [] \<and> combo s' = 1 \<and>
         grid s' = single_grid \<and> score s' = 40)"
proof -
  have h: "currentSum bust_state > target bust_state"
    by (simp add: currentSum_def selectedBlocks_def bust_state_def demo_state_def
        single_grid_def demo_block_def)
  from bust_resets [OF h, of demo_rng] h show ?thesis
    by (simp add: bust_state_def demo_state_def)
qed

subsection \<open>The target can be reached\<close>

text \<open>
  Claim C5, amended. For every grid that holds at least one block, the value returned by
  \<open>generateTarget\<close> is the sum of the values of some set of distinct blocks of the grid, of
  at most 4 blocks and of at least 2 when the grid holds at least two blocks; on a grid of
  a single block it is the value of that block.
\<close>

theorem target_is_reachable:
  assumes ok: "rng_ok rng" and ne: "concat g \<noteq> []"
  shows "subset_sums_to g (min 2 (length (concat g))) 4 (generateTarget rng g)"
proof -
  let ?k = "nat (\<lfloor>countDraw rng * 3\<rfloor> + 2)"
  let ?ys = "take ?k (shuffle rng (concat g))"
  from ok have k: "2 \<le> ?k" "?k \<le> 4" using count_range [of "countDraw rng"]
    by (simp_all add: rng_ok_def)
  from ok have perm: "mset (shuffle rng (concat g)) = mset (concat g)" by (simp add: rng_ok_def)
  then have len: "length (shuffle rng (concat g)) = length (concat g)"
    by (rule mset_eq_length)
  have "mset ?ys + mset (drop ?k (shuffle rng (concat g))) = mset (shuffle rng (concat g))"
    by (metis append_take_drop_id mset_append)
  then have "mset ?ys \<subseteq># mset (concat g)" using perm by (metis mset_subset_eq_add_left)
  from ex_subseq [OF this] obtain zs where
    zs: "zs \<in> set (subseqs (concat g))" "mset zs = mset ?ys" by blast
  have zl: "length zs = min ?k (length (concat g))"
    using mset_eq_length [OF zs(2)] len by simp
  have "sum_list (map value_b zs) = sum_list (map value_b ?ys)"
    using zs(2) by (metis mset_map sum_mset_sum_list)
  moreover have "generateTarget rng g = sum_list (map value_b ?ys)"
    using ne by (auto simp: generateTarget_def Let_def foldl_plus_sum)
  ultimately have "sum_list (map value_b zs) = generateTarget rng g" by simp
  moreover have "min 2 (length (concat g)) \<le> length zs" "length zs \<le> 4"
    using zl k by simp_all
  ultimately show ?thesis using zs(1)
    unfolding subset_sums_to_def list_ex_iff by blast
qed

text \<open>
  The grid of a new round, with 28 blocks, and a grid of one block.
\<close>

theorem target_is_reachable_witness:
  "rng_ok demo_rng \<and> concat (initialGrid demo_rng) \<noteq> [] \<and>
   min 2 (length (concat (initialGrid demo_rng))) = 2 \<and>
   subset_sums_to (initialGrid demo_rng) 2 4 (generateTarget demo_rng (initialGrid demo_rng)) \<and>
   concat single_grid \<noteq> [] \<and>
   subset_sums_to single_grid 1 4 (generateTarget demo_rng single_grid)"
proof -
  have ne: "concat (initialGrid demo_rng) \<noteq> []" "concat single_grid \<noteq> []"
    unfolding initialGrid_demo by (simp_all add: single_grid_def)
  have m: "min 2 (length (concat (initialGrid demo_rng))) = 2"
    "min 2 (length (concat single_grid)) = 1"
    unfolding initialGrid_demo by (simp_all add: single_grid_def)
  from target_is_reachable [OF rng_ok_demo ne(1)] target_is_reachable [OF rng_ok_demo ne(2)]
  show ?thesis using ne rng_ok_demo by (simp add: m)
qed

text \<open>
  As stated, with 2 to 4 blocks on every non-empty grid, the property fails on a grid of
  one block: \<open>slice(0, count)\<close> then yields that block alone, the target is its value, and
  the grid has no set of 2 to 4 blocks at all.
\<close>

theorem target_needs_two_blocks_counterexample:
  "rng_ok demo_rng \<and> concat single_grid \<noteq> [] \<and> generateTarget demo_rng single_grid = 5 \<and>
   \<not> subset_sums_to single_grid 2 4 (generateTarget demo_rng single_grid)"
proof -
  have t: "generateTarget demo_rng single_grid = 5"
    by (simp add: single_grid_def generateTarget_def demo_rng_def demo_block_def Let_def
        eval_nat_numeral)
  have "\<not> subset_sums_to single_grid 2 4 5"
    by (simp add: single_grid_def subset_sums_to_def)
  moreover have "concat single_grid \<noteq> []" by (simp add: single_grid_def)
  ultimately show ?thesis using rng_ok_demo by (simp only: t simp_thms)
qed

subsection \<open>Toggling and the selection\<close>

text \<open>
  Claim C6, amended. While the game is neither paused nor over, toggling an id that
  belongs to no block of the grid does change the state: the id is added to \<open>selectedIds\<close>
  (or removed, if it was there); no other component changes, and the sum of the selected
  blocks' values stays the same. In every state reached when clicks are made only on blocks
  that are on the grid, as the buttons of the board do, \<open>selectedIds\<close> contains only ids of
  blocks currently present in the grid.
\<close>

theorem toggle_absent_id:
  "(\<not> gameOver s \<and> \<not> isPaused s \<and> id_b b \<notin> grid_ids s \<longrightarrow>
      handleBlockClick b s =
        s\<lparr>selectedIds := (if id_b b \<in> set (selectedIds s)
                          then filter (\<lambda>i. i \<noteq> id_b b) (selectedIds s)
                          else selectedIds s @ [id_b b])\<rparr> \<and>
      selectedIds (handleBlockClick b s) \<noteq> selectedIds s \<and>
      currentSum (handleBlockClick b s) = currentSum s) \<and>
   (ui_reachable s \<longrightarrow> set (selectedIds s) \<subseteq> grid_ids s)"
proof (intro conjI impI)
  assume a: "\<not> gameOver s \<and> \<not> isPaused s \<and> id_b b \<notin> grid_ids s"
  then show "handleBlockClick b s =
        s\<lparr>selectedIds := (if id_b b \<in> set (selectedIds s)
                          then filter (\<lambda>i. i \<noteq> id_b b) (selectedIds s)
                          else selectedIds s @ [id_b b])\<rparr>"
    by (simp add: handleBlockClick_def Let_def)
  from a show "selectedIds (handleBlockClick b s) \<noteq> selectedIds s"
    by (simp add: toggle_changes_selection)
  from a show "currentSum (handleBlockClick b s) = currentSum s"
    by (simp add: currentSum_def absent_toggle_blocks)
next
  assume "ui_reachable s"
  then show "set (selectedIds s) \<subseteq> grid_ids s" by (rule ui_reachable_selection)
qed

text \<open>
  In \<open>ready_state Time\<close>, reached by clicks on blocks of the grid, the two selected ids are
  on the grid; toggling the id \<open>zz\<close>, which no block carries, appends it and leaves the sum
  at 10.
\<close>

theorem toggle_absent_id_witness:
  "\<not> gameOver (ready_state Time) \<and> \<not> isPaused (ready_state Time) \<and>
   id_b stray_block \<notin> grid_ids (ready_state Time) \<and>
   selectedIds (handleBlockClick stray_block (ready_state Time)) =
     [''rrrrrr'', ''rrrrrrc'', ''zz''] \<and>
   currentSum (handleBlockClick stray_block (ready_state Time)) = 10 \<and>
   ui_reachable (ready_state Time) \<and>
   set (selectedIds (ready_state Time)) \<subseteq> grid_ids (ready_state Time)"
proof -
  have p: "\<not> gameOver (ready_state Time)" "\<not> isPaused (ready_state Time)"
    by (simp_all add: ready_state_def handleBlockClick_def startGame_def)
  have a: "id_b stray_block \<notin> grid_ids (ready_state Time)"
    unfolding grid_ids_def ready_parts stray_id by (rule stray_absent)
  have z: "id_b stray_block \<notin> set (selectedIds (ready_state Time))"
    unfolding ready_parts stray_id by simp
  from toggle_absent_id [of "ready_state Time" stray_block] p a ui_reachable_ready
  have t: "handleBlockClick stray_block (ready_state Time) =
          (ready_state Time)\<lparr>selectedIds :=
             (if id_b stray_block \<in> set (selectedIds (ready_state Time))
              then filter (\<lambda>i. i \<noteq> id_b stray_block) (selectedIds (ready_state Time))
              else selectedIds (ready_state Time) @ [id_b stray_block])\<rparr>"
    and c: "currentSum (handleBlockClick stray_block (ready_state Time)) = currentSum (ready_state Time)"
    and i: "set (selectedIds (ready_state Time)) \<subseteq> grid_ids (ready_state Time)"
    by blast+
  have "selectedIds (handleBlockClick stray_block (ready_state Time)) =
      [''rrrrrr'', ''rrrrrrc'', ''zz'']"
    using z by (subst t) (simp add: ready_parts stray_id)
  with p a c i ui_reachable_ready show ?thesis by (simp only: ready_sum simp_thms)
qed

text \<open>
  As stated the property fails: \<open>handleBlockClick\<close> never looks at the grid. After
  \<open>startGame\<close>, toggling the id \<open>zz\<close>, which no block carries, changes \<open>selectedIds\<close>, and the
  state reached holds a selected id that is not on the grid.
\<close>

theorem toggle_absent_id_counterexample:
  "reachable (startGame Classic demo_rng initialState) \<and>
   id_b stray_block \<notin> grid_ids (startGame Classic demo_rng initialState) \<and>
   handleBlockClick stray_block (startGame Classic demo_rng initialState) \<noteq>
     startGame Classic demo_rng initialState \<and>
   reachable (handleBlockClick stray_block (startGame Classic demo_rng initialState)) \<and>
   \<not> set (selectedIds (handleBlockClick stray_block (startGame Classic demo_rng initialState)))
       \<subseteq> grid_ids (handleBlockClick stray_block (startGame Classic demo_rng initialState))"
proof -
  let ?s = "startGame Classic demo_rng initialState"
  let ?t = "handleBlockClick stray_block ?s"
  have r1: "reachable ?s"
    using reachable_step [OF reachable_init rng_ok_demo, of "StartGame Classic"] by simp
  have r2: "reachable ?t"
    using reachable_step [OF r1 rng_ok_demo, of "Click stray_block"] by simp
  have g: "grid ?s = initialGrid demo_rng" "selectedIds ?s = []"
    by (simp_all add: startGame_def)
  have p: "\<not> gameOver ?s" "\<not> isPaused ?s"
    by (simp_all add: startGame_def)
  have sel: "selectedIds ?t = [''zz'']"
    using p by (simp add: handleBlockClick_def g stray_id)
  have gt: "grid ?t = initialGrid demo_rng"
    by (simp add: handleBlockClick_def g)
  have a: "id_b stray_block \<notin> grid_ids ?s"
    unfolding grid_ids_def g stray_id by (rule stray_absent)
  have ne: "?t \<noteq> ?s"
  proof
    assume "?t = ?s"
    then have "selectedIds ?t = selectedIds ?s" by simp
    then show False unfolding sel g by simp
  qed
  have "\<not> set (selectedIds ?t) \<subseteq> grid_ids ?t"
    unfolding grid_ids_def gt sel using stray_absent by simp
  with r1 r2 a ne show ?thesis by blast
qed

subsection \<open>Bounds of the combo\<close>

text \<open>
  Claim C7. In every state the component can reach, by any sequence of game starts,
  selection toggles, evaluations, timer ticks and the other events, \<open>combo\<close> lies in
  \<open>[1, 5]\<close>.
\<close>

theorem combo_in_range:
  assumes "reachable s"
  shows "1 \<le> combo s \<and> combo s \<le> 5"
  using reachable_invariant [OF assms] by (simp add: invariant_def)

text \<open>
  A time-mode success from \<open>ready_state Time\<close> raises the combo to 2.
\<close>

theorem combo_in_range_witness:
  "\<exists>s'. checkSum demo_rng (ready_state Time) = Inr s' \<and> reachable s' \<and> combo s' = 2 \<and>
        1 \<le> combo s' \<and> combo s' \<le> 5"
proof -
  from ready_success [of Time] obtain s' where
    s': "checkSum demo_rng (ready_state Time) = Inr s'" "reachable s'" "combo s' = 2"
    by auto
  from combo_in_range [OF s'(2)] s' show ?thesis by blast
qed

subsection \<open>The score within a round\<close>

text \<open>
  Claim C8. From any reachable state, any sequence of events other than \<open>startGame\<close>
  runs to its end without an exception, and the score it ends with is at least the score
  it started with: within a round the score never decreases.
\<close>

theorem score_never_decreases:
  assumes "reachable s" and "list_all (\<lambda>(ev, rng). in_round ev \<and> rng_ok rng) evs"
  shows "\<exists>s'. run evs s = Inr s' \<and> score s \<le> score s'"
proof -
  from assms(2) have "\<forall>(ev, rng) \<in> set evs. in_round ev \<and> rng_ok rng"
    by (simp add: list_all_iff)
  from run_score [OF reachable_invariant [OF assms(1)] this] show ?thesis by blast
qed

text \<open>
  From \<open>ready_state Time\<close>: a successful evaluation, a tick, a new target and a click.
\<close>

theorem score_never_decreases_witness:
  "reachable (ready_state Time) \<and>
   list_all (\<lambda>(ev, rng). in_round ev \<and> rng_ok rng) round_events \<and>
   (\<exists>s'. run round_events (ready_state Time) = Inr s' \<and> score (ready_state Time) \<le> score s')"
proof -
  have ok: "list_all (\<lambda>(ev, rng). in_round ev \<and> rng_ok rng) round_events"
    by (simp add: round_events_def rng_ok_demo)
  from score_never_decreases [OF reachable_ready ok] reachable_ready ok show ?thesis by blast
qed

subsection \<open>The timer\<close>

text \<open>
  Claim C9. In time mode, while the round is running, the tick that takes the countdown
  to zero (\<open>timeLeft\<close> is 1; the code tests \<open>prev <= 1\<close>) changes the grid and the game-over
  flag exactly as \<open>addNewRow\<close> does, sets \<open>combo\<close> to 1 and \<open>timeLeft\<close> to \<open>TIME_LIMIT\<close>; every
  other tick only decreases \<open>timeLeft\<close> by 1.
\<close>

theorem timer_tick:
  assumes "mode s = Some Time" and "\<not> gameOver s" and "\<not> isPaused s"
  shows "(timeLeft s \<le> 1 \<longrightarrow>
            grid (tick rng s) = grid (addNewRow rng s) \<and>
            gameOver (tick rng s) = gameOver (addNewRow rng s) \<and>
            combo (tick rng s) = 1 \<and> timeLeft (tick rng s) = TIME_LIMIT) \<and>
         (1 < timeLeft s \<longrightarrow> tick rng s = s\<lparr>timeLeft := timeLeft s - 1\<rparr>)"
  using assms by (simp add: tick_def Let_def)

text \<open>
  A tick at \<open>timeLeft = 7\<close> and a tick at \<open>timeLeft = 1\<close>.
\<close>

theorem timer_tick_witness:
  "mode (demo_state [] 9 []) = Some Time \<and> \<not> gameOver (demo_state [] 9 []) \<and>
   \<not> isPaused (demo_state [] 9 []) \<and> 1 < timeLeft (demo_state [] 9 []) \<and>
   timeLeft (tick demo_rng (demo_state [] 9 [])) = 6 \<and>
   timeLeft ((demo_state [] 9 [])\<lparr>timeLeft := 1\<rparr>) \<le> 1 \<and>
   combo (tick demo_rng ((demo_state [] 9 [])\<lparr>timeLeft := 1\<rparr>)) = 1 \<and>
   timeLeft (tick demo_rng ((demo_state [] 9 [])\<lparr>timeLeft := 1\<rparr>)) = 10"
  using timer_tick [of "demo_state [] 9 []" demo_rng]
    timer_tick [of "(demo_state [] 9 [])\<lparr>timeLeft := 1\<rparr>" demo_rng]
  by (simp add: demo_state_def TIME_LIMIT_def)

subsection \<open>The combo in classic mode\<close>

text \<open>
  Claim C10. In every reachable state in classic mode \<open>combo\<close> is 1, so that a
  classic-mode success awards exactly \<open>target * (number of selected blocks)\<close> points.
\<close>

theorem classic_combo_is_one:
  assumes "reachable s" and "mode s = Some Classic"
  shows "combo s = 1 \<and>
         (currentSum s = target s \<and> target s \<noteq> 0 \<longrightarrow>
            (\<exists>s'. checkSum rng s = Inr s' \<and>
                  score s' = score s + target s * int (length (selectedBlocks s))))"
proof -
  from reachable_invariant [OF assms(1)] assms(2)
  have c: "combo s = 1" and wf: "wf_grid (grid s)" by (simp_all add: invariant_def)
  have "\<exists>s'. checkSum rng s = Inr s' \<and>
             score s' = score s + target s * int (length (selectedBlocks s))"
    if "currentSum s = target s" "target s \<noteq> 0"
    using checkSum_success [OF wf that, of rng] c assms(2)
    by (auto simp: Let_def addNewRow_fields)
  with c show ?thesis by blast
qed

text \<open>
  In \<open>ready_state Classic\<close> two blocks of value 5 are selected and the target is 10: the
  success awards \<open>10 * 2\<close> points.
\<close>

theorem classic_combo_is_one_witness:
  "reachable (ready_state Classic) \<and> mode (ready_state Classic) = Some Classic \<and>
   currentSum (ready_state Classic) = target (ready_state Classic) \<and>
   target (ready_state Classic) \<noteq> 0 \<and> combo (ready_state Classic) = 1 \<and>
   (\<exists>s'. checkSum demo_rng (ready_state Classic) = Inr s' \<and> score s' = 0 + 10 * 2)"
proof -
  have m: "mode (ready_state Classic) = Some Classic" by (simp add: ready_parts)
  have h: "currentSum (ready_state Classic) = target (ready_state Classic)"
    "target (ready_state Classic) \<noteq> 0"
    by (simp_all add: ready_sum ready_parts target_demo)
  from classic_combo_is_one [OF reachable_ready m, of demo_rng] h
  have "combo (ready_state Classic) = 1 \<and>
        (\<exists>s'. checkSum demo_rng (ready_state Classic) = Inr s' \<and> score s' = 0 + 10 * 2)"
    by (simp add: ready_parts ready_sum target_demo)
  with reachable_ready m h show ?thesis by blast
qed

end
